theory Spec2Isabelle
  imports Main "HOL-Library.Word"
begin

section \<open>Strings, characters and decimal numerals\<close>

text \<open>
  Python strings are modelled as HOL strings: lists of characters with code points
  0 to 255, so the development is about the strings of such characters. On this range
  the pattern class \<open>\d\<close> is exactly the ten ASCII digits and \<open>[a-zA-Z.]\<close> is the ASCII
  letters and the dot. Python integers are unbounded and are modelled as \<open>int\<close>; the
  columns of type \<open>INTEGER\<close> hold 32-bit signed values.
\<close>

text \<open>
  Exceptions of the program are values. \<open>AttributeError\<close> and \<open>TypeError\<close> are the
  Python errors of reading an attribute or an index of \<open>None\<close>; \<open>ValueError\<close> is raised
  by the conversions between integers and decimal strings beyond the digit limit;
  \<open>HTTPException\<close> carries the status code and the text of the detail;
  \<open>ValidationError\<close> is raised by the constructor of the response model;
  \<open>MultipleResultsFound\<close> by \<open>one()\<close>; \<open>IntegrityError\<close> by a statement that violates a
  key of the tables; \<open>DBAPIError\<close> by a statement with an integer outside the range of
  its column.
\<close>

datatype error =
    AttributeError
  | TypeError
  | ValueError
  | HTTPException nat string
  | ValidationError
  | MultipleResultsFound
  | IntegrityError
  | DBAPIError


definition is_digit :: "char \<Rightarrow> bool" where
  "is_digit c = (48 \<le> (of_char c :: nat) \<and> (of_char c :: nat) \<le> 57)"

definition is_letter :: "char \<Rightarrow> bool" where
  "is_letter c =
     ((97 \<le> (of_char c :: nat) \<and> (of_char c :: nat) \<le> 122) \<or>
      (65 \<le> (of_char c :: nat) \<and> (of_char c :: nat) \<le> 90))"

text \<open>The character class \<open>[a-zA-Z.]\<close> of \<open>error_code_pattern\<close>.\<close>

definition is_prefix_char :: "char \<Rightarrow> bool" where
  "is_prefix_char c = (is_letter c \<or> c = CHR ''.'')"

text \<open>
  \<open>int(s)\<close> on a non-empty string of decimal digits: the conversion raises
  \<open>ValueError\<close> when the string has more digits than the limit of the interpreter, which
  is 4300 unless configured otherwise; every digit character counts.
\<close>

definition int_max_str_digits :: nat where
  "int_max_str_digits = 4300"

definition digit_val :: "char \<Rightarrow> int" where
  "digit_val c = int (of_char c) - 48"

definition int_of_digits :: "string \<Rightarrow> int" where
  "int_of_digits ds = foldl (\<lambda>a c. 10 * a + digit_val c) 0 ds"

definition py_int :: "string \<Rightarrow> error + int" where
  "py_int ds = (if int_max_str_digits < length ds then Inl ValueError else Inr (int_of_digits ds))"

text \<open>
  The decimal string of an integer: the digits, most significant first, with a sign. The
  conversion raises \<open>ValueError\<close> beyond the same limit of digits.
\<close>

definition digit_char :: "nat \<Rightarrow> char" where
  "digit_char d = char_of (48 + d)"

fun nat_digits :: "nat \<Rightarrow> string" where
  "nat_digits n =
     (if n < 10 then [digit_char n] else nat_digits (n div 10) @ [digit_char (n mod 10)])"

declare nat_digits.simps [simp del]

definition str_int :: "int \<Rightarrow> error + string" where
  "str_int i =
     (if int_max_str_digits < length (nat_digits (nat \<bar>i\<bar>)) then Inl ValueError
      else Inr (if i < 0 then CHR ''-'' # nat_digits (nat (- i)) else nat_digits (nat i)))"

text \<open>The format specification \<open>0>4\<close>: right-aligned in width 4, filled with \<open>0\<close>.\<close>

definition pad_0_4 :: "string \<Rightarrow> string" where
  "pad_0_4 s = replicate (4 - length s) (CHR ''0'') @ s"

definition format_0_4 :: "int \<Rightarrow> error + string" where
  "format_0_4 i = (case str_int i of Inl e \<Rightarrow> Inl e | Inr s \<Rightarrow> Inr (pad_0_4 s))"

text \<open>\<open>s.split(".")\<close> and \<open>".".join(xs)\<close>.\<close>

fun split_dot :: "string \<Rightarrow> string list" where
  "split_dot [] = [[]]"
| "split_dot (c # cs) =
     (if c = CHR ''.'' then [] # split_dot cs
      else (c # hd (split_dot cs)) # tl (split_dot cs))"

fun join_dot :: "string list \<Rightarrow> string" where
  "join_dot [] = []"
| "join_dot [x] = x"
| "join_dot (x # y # ys) = x @ CHR ''.'' # join_dot (y # ys)"

section \<open>Code grammar: \<open>parse_error_code\<close> (utis.py)\<close>

text \<open>
  \<open>error_code_pattern.match(code)\<close> for the pattern
  \<open>(?P<prefixes>[a-zA-Z.]+)(?P<increment>\d+)\<close>. \<open>match\<close> anchors the pattern at the
  start of the string only. Both groups are greedy and their classes are disjoint, so the
  first group is the longest leading run of letters and dots and the second the longest
  run of digits after it; the match fails when either run is empty.
\<close>

definition pattern_match :: "string \<Rightarrow> (string \<times> string) option" where
  "pattern_match code =
     (let prefixes = takeWhile is_prefix_char code;
          increment = takeWhile is_digit (dropWhile is_prefix_char code)
      in if prefixes = [] \<or> increment = [] then None else Some (prefixes, increment))"

text \<open>
  \<open>parse_error_code\<close>: a failed match is \<open>None\<close>, and \<open>None.groupdict()\<close> raises
  \<open>AttributeError\<close>; \<open>int\<close> raises on a group of digits beyond the limit.
\<close>

definition parse_error_code :: "string \<Rightarrow> error + (string list \<times> int)" where
  "parse_error_code code =
     (case pattern_match code of
        None \<Rightarrow> Inl AttributeError
      | Some (prefixes, increment) \<Rightarrow>
          (case py_int increment of
             Inl e \<Rightarrow> Inl e
           | Inr n \<Rightarrow> Inr (split_dot prefixes, n)))"

text \<open>
  The grammar \<open><segment>(.<segment>)*<digits>\<close> in the words of the specification:
  the longest trailing run of digits is the increment and must be non-empty; what is
  before it, split at the dots, is a chain of non-empty segments of letters.
\<close>

definition spec_code_grammar :: "string \<Rightarrow> bool" where
  "spec_code_grammar s =
     (let digits = rev (takeWhile is_digit (rev s));
          body = rev (dropWhile is_digit (rev s))
      in digits \<noteq> [] \<and> list_all (\<lambda>seg. seg \<noteq> [] \<and> list_all is_letter seg) (split_dot body))"

text \<open>
  The pattern matches a string at its start with the groups \<open>p\<close> and \<open>d\<close> when the string
  is \<open>p\<close>, then \<open>d\<close>, then a rest that does not go on with a digit, where \<open>p\<close> is a
  non-empty run of letters and dots and \<open>d\<close> a non-empty run of digits.
\<close>

definition leading_match :: "string \<Rightarrow> string \<Rightarrow> string \<Rightarrow> bool" where
  "leading_match s p d =
     (\<exists>rest. s = p @ d @ rest \<and> p \<noteq> [] \<and> list_all is_prefix_char p \<and>
        d \<noteq> [] \<and> list_all is_digit d \<and> (rest = [] \<or> \<not> is_digit (hd rest)))"

definition has_leading_match :: "string \<Rightarrow> bool" where
  "has_leading_match s = (\<exists>p d. leading_match s p d)"

text \<open>
  A valid segment in the words of the round-trip property: a non-empty string with no
  dot and no leading or trailing whitespace.
\<close>

definition is_space :: "char \<Rightarrow> bool" where
  "is_space c = ((of_char c :: nat) \<in> {9, 10, 11, 12, 13, 28, 29, 30, 31, 32, 133, 160})"

definition spec_valid_segment :: "string \<Rightarrow> bool" where
  "spec_valid_segment x =
     (x \<noteq> [] \<and> CHR ''.'' \<notin> set x \<and> \<not> is_space (hd x) \<and> \<not> is_space (last x))"

section \<open>Data model (db/models.py, db/constants.py)\<close>

text \<open>
  The two mapped classes as records and their tables as lists of rows. The columns
  \<open>created_at\<close> and \<open>updated_at\<close> of the mixins play no part below and are left out. The
  primary keys are named \<open>p_id\<close> and \<open>e_id\<close>, the column \<open>alias\<close> is \<open>alias_p\<close>. The
  column \<open>increment\<close> is a 32-bit word that is read as a signed integer with \<open>sint\<close>.
\<close>

datatype EventCodeSeverityEnum = CRITICAL | ERROR | WARNING | INFO

record Prefix =
  p_id :: int
  prefix :: string
  alias_p :: string
  description :: "string option"
  parent_prefix_id :: "int option"

record EventCode =
  e_id :: nat
  prefix_id :: int
  increment :: "32 word"
  custom_message :: "string option"
  hint :: "string option"
  severity :: EventCodeSeverityEnum
  dev_note :: "string option"
  is_deprecated :: bool
  use_generic_message :: bool
  is_private :: bool

record database =
  prefixes_table :: "Prefix list"
  event_codes_table :: "EventCode list"

text \<open>
  \<open>Prefix.str_value\<close>: the test \<open>not self.parent_prefix_id\<close> holds for \<open>None\<close> and for
  \<open>0\<close>. The relationship \<open>parent_prefix\<close> is the row whose id is \<open>parent_prefix_id\<close>;
  without such a row it is \<open>None\<close> and reading its \<open>str_value\<close> raises. The recursion
  follows the parent chain and does not return (\<open>None\<close>) on a cycle.
\<close>

partial_function (option) Prefix_str_value :: "Prefix list \<Rightarrow> Prefix \<Rightarrow> (error + string) option"
  where
  "Prefix_str_value t self =
     (case parent_prefix_id self of
        None \<Rightarrow> Some (Inr (prefix self))
      | Some q \<Rightarrow>
          if q = 0 then Some (Inr (prefix self))
          else (case find (\<lambda>r. p_id r = q) t of
                  None \<Rightarrow> Some (Inl AttributeError)
                | Some parent_prefix \<Rightarrow>
                    Option.bind (Prefix_str_value t parent_prefix)
                      (\<lambda>res. case res of
                                Inl e \<Rightarrow> Some (Inl e)
                              | Inr s \<Rightarrow> Some (Inr (s @ ''.'' @ prefix self)))))"

declare Prefix_str_value.simps [code]

text \<open>\<open>EventCode.str_value\<close>: the prefix's \<open>str_value\<close> followed by \<open>increment:0>4\<close>.\<close>

definition EventCode_str_value :: "Prefix list \<Rightarrow> EventCode \<Rightarrow> (error + string) option" where
  "EventCode_str_value t self =
     (case find (\<lambda>r. p_id r = prefix_id self) t of
        None \<Rightarrow> Some (Inl AttributeError)
      | Some p \<Rightarrow>
          Option.bind (Prefix_str_value t p)
            (\<lambda>res. case res of
                      Inl e \<Rightarrow> Some (Inl e)
                    | Inr s \<Rightarrow>
                        (case format_0_4 (sint (increment self)) of
                           Inl e \<Rightarrow> Some (Inl e)
                         | Inr f \<Rightarrow> Some (Inr (s @ f)))))"

text \<open>
  The chain of segments of a node in the words of the specification: the segment of a
  root, and for a node with a parent the chain of the parent followed by its own segment.
\<close>

inductive prefix_chain :: "Prefix list \<Rightarrow> Prefix \<Rightarrow> string list \<Rightarrow> bool" for t :: "Prefix list"
  where
  root: "r \<in> set t \<Longrightarrow> parent_prefix_id r = None \<Longrightarrow> prefix_chain t r [prefix r]"
| child: "r \<in> set t \<Longrightarrow> parent_prefix_id r = Some q \<Longrightarrow> p \<in> set t \<Longrightarrow> p_id p = q \<Longrightarrow>
          prefix_chain t p S \<Longrightarrow> prefix_chain t r (S @ [prefix r])"

section \<open>Path resolver: \<open>get_prefix_ids_by_composed_key_query\<close> (utis.py)\<close>

text \<open>
  The rows of the recursive common table expression \<open>composed_prefix\<close> have the four
  selected columns. \<open>anchor\<close> is the non-recursive term (the rows of \<open>prefixes\<close> without a
  parent), \<open>recursive\<close> the recursive term evaluated on a working table \<open>w\<close>: the join of
  \<open>prefixes\<close> with \<open>w\<close> on \<open>parent_prefix_id = w.id\<close>, which a null parent never satisfies.
\<close>

record cte_row =
  c_id :: int
  c_prefix :: string
  composed_prefix :: string
  c_parent_prefix_id :: "int option"

definition anchor :: "Prefix list \<Rightarrow> cte_row list" where
  "anchor t =
     map (\<lambda>r. \<lparr>c_id = p_id r, c_prefix = prefix r, composed_prefix = prefix r,
                c_parent_prefix_id = parent_prefix_id r\<rparr>)
       (filter (\<lambda>r. parent_prefix_id r = None) t)"

definition recursive :: "Prefix list \<Rightarrow> cte_row list \<Rightarrow> cte_row list" where
  "recursive t w =
     concat (map (\<lambda>r.
       map (\<lambda>a. \<lparr>c_id = p_id r, c_prefix = prefix r,
                  composed_prefix = composed_prefix a @ ''.'' @ prefix r,
                  c_parent_prefix_id = parent_prefix_id r\<rparr>)
         (filter (\<lambda>a. parent_prefix_id r = Some (c_id a)) w)) t)"

text \<open>
  \<open>UNION ALL\<close> of a recursive expression: the working table is added to the result and
  replaced by the recursive term evaluated on it, until it is empty. The evaluation does
  not return (\<open>None\<close>) when no working table is ever empty.
\<close>

partial_function (option) union_all :: "Prefix list \<Rightarrow> cte_row list \<Rightarrow> cte_row list option"
  where
  "union_all t w =
     (if w = [] then Some []
      else Option.bind (union_all t (recursive t w)) (\<lambda>rest. Some (w @ rest)))"

declare union_all.simps [code]

text \<open>
  The final query selects the ids of the rows whose composed prefix is the joined chain.
  All selected rows have the same \<open>composed_prefix\<close>, so \<open>ORDER BY composed_prefix\<close>
  fixes no order among them; the model keeps the order of the expression.
\<close>

definition get_prefix_ids_by_composed_key_query :: "Prefix list \<Rightarrow> string list \<Rightarrow> int list option"
  where
  "get_prefix_ids_by_composed_key_query t prefixes =
     Option.bind (union_all t (anchor t))
       (\<lambda>cte. Some (map c_id (filter (\<lambda>a. composed_prefix a = join_dot prefixes) cte)))"

text \<open>
  The composed path in the words of the specification: the segment of a root, and for a
  node with a parent the composed path of the parent, a dot, and its own segment.
\<close>

inductive composed_path :: "Prefix list \<Rightarrow> Prefix \<Rightarrow> string \<Rightarrow> bool" for t :: "Prefix list"
  where
  root: "r \<in> set t \<Longrightarrow> parent_prefix_id r = None \<Longrightarrow> composed_path t r (prefix r)"
| child: "r \<in> set t \<Longrightarrow> parent_prefix_id r = Some q \<Longrightarrow> p \<in> set t \<Longrightarrow> p_id p = q \<Longrightarrow>
          composed_path t p s \<Longrightarrow> composed_path t r (s @ ''.'' @ prefix r)"

section \<open>Lookup service: \<open>get_error_code_details\<close> (api/service/routes.py)\<close>

text \<open>
  \<open>str.upper()\<close> on the characters of the model. The ASCII and Latin-1 small letters map
  to their capitals and the sharp s to \<open>SS\<close>. The capitals of the micro sign and of the
  y with diaeresis lie beyond code point 255; they stay as they are, which like their
  capitals are in no class of the pattern.
\<close>

definition upper_char :: "char \<Rightarrow> string" where
  "upper_char c =
     (let n = (of_char c :: nat)
      in if 97 \<le> n \<and> n \<le> 122 then [char_of (n - 32)]
         else if n = 223 then ''SS''
         else if 224 \<le> n \<and> n \<le> 254 \<and> n \<noteq> 247 then [char_of (n - 32)]
         else [c])"

definition upper :: "string \<Rightarrow> string" where
  "upper s = concat (map upper_char s)"

text \<open>
  The response model \<open>EventCodeR\<close>. Its constructor validates the field types:
  \<open>details\<close> is declared \<open>str\<close>, so \<open>None\<close> is rejected with a validation error, while
  \<open>hint\<close> may be \<open>None\<close>.
\<close>

record EventCodeR =
  code :: string
  details :: string
  hint_R :: "string option"
  severity_R :: EventCodeSeverityEnum

definition EventCodeR_init ::
  "string \<Rightarrow> string option \<Rightarrow> string option \<Rightarrow> EventCodeSeverityEnum \<Rightarrow> error + EventCodeR" where
  "EventCodeR_init c d h s =
     (case d of
        None \<Rightarrow> Inl ValidationError
      | Some m \<Rightarrow> Inr \<lparr>code = c, details = m, hint_R = h, severity_R = s\<rparr>)"

definition apostrophe :: char where
  "apostrophe = char_of (39 :: nat)"

text \<open>
  The route. \<open>fetchone()\<close> is the first row of the result or \<open>None\<close>, and \<open>None[0]\<close> raises
  \<open>TypeError\<close>. The test \<open>not prefix_id\<close> holds for the id \<open>0\<close>. \<open>unique()\<close> removes
  duplicates and \<open>one()\<close> raises \<open>NoResultFound\<close>, which the route turns into the second
  404, on no row and \<open>MultipleResultsFound\<close> on several. The parsed increment is bound
  to a parameter of the type of the column, and the driver rejects a value above the
  greatest 32-bit signed integer when the second query is executed. The result is \<open>None\<close>
  when the first query does not return.
\<close>

definition int4_max :: int where
  "int4_max = 2147483647"

definition get_error_code_details :: "database \<Rightarrow> string \<Rightarrow> (error + EventCodeR) option" where
  "get_error_code_details db c =
     (case parse_error_code (upper c) of
        Inl e \<Rightarrow> Some (Inl e)
      | Inr (prefixes, increment_c) \<Rightarrow>
          (case get_prefix_ids_by_composed_key_query (prefixes_table db) prefixes of
             None \<Rightarrow> None
           | Some [] \<Rightarrow> Some (Inl TypeError)
           | Some (prefix_id_c # _) \<Rightarrow>
               if prefix_id_c = 0 then
                 Some (Inl (HTTPException 404
                   (''Prefix '' @ [apostrophe] @ join_dot prefixes @ [apostrophe] @ '' is not found.'')))
               else if int4_max < increment_c then Some (Inl DBAPIError)
               else
                 (case remdups (filter (\<lambda>e. prefix_id e = prefix_id_c \<and>
                                              sint (increment e) = increment_c)
                                  (event_codes_table db)) of
                    [] \<Rightarrow>
                      Some (Inl (HTTPException 404
                        (''EventCode '' @ [apostrophe] @ c @ [apostrophe] @ '' is not found.'')))
                  | [event_code] \<Rightarrow>
                      Some (EventCodeR_init c
                        (if use_generic_message event_code then Some ''Something went wrong.''
                         else custom_message event_code)
                        (hint event_code) (severity event_code))
                  | _ \<Rightarrow> Some (Inl MultipleResultsFound))))"



section \<open>An example database\<close>

text \<open>
  The tree of the specification's examples: the root \<open>A\<close>, its child \<open>LOGIN\<close> and grandchild
  \<open>OAUTH\<close>, and a second root with the id \<open>0\<close>; three event codes, the last without a
  custom message.
\<close>

definition tree_db :: database where
  "tree_db =
     \<lparr>prefixes_table =
        [\<lparr>p_id = 1, prefix = ''A'', alias_p = ''Auth'', description = None,
          parent_prefix_id = None\<rparr>,
         \<lparr>p_id = 2, prefix = ''LOGIN'', alias_p = ''Login'', description = None,
          parent_prefix_id = Some 1\<rparr>,
         \<lparr>p_id = 3, prefix = ''OAUTH'', alias_p = ''OAuth'', description = None,
          parent_prefix_id = Some 2\<rparr>,
         \<lparr>p_id = 0, prefix = ''Z'', alias_p = ''Zero'', description = None,
          parent_prefix_id = None\<rparr>],
      event_codes_table =
        [\<lparr>e_id = 10, prefix_id = 1, increment = 4, custom_message = Some ''Invalid credentials'',
          hint = None, severity = ERROR, dev_note = None, is_deprecated = False,
          use_generic_message = False, is_private = False\<rparr>,
         \<lparr>e_id = 11, prefix_id = 1, increment = 5, custom_message = Some ''Locked'',
          hint = Some ''Wait'', severity = WARNING, dev_note = None, is_deprecated = False,
          use_generic_message = True, is_private = False\<rparr>,
         \<lparr>e_id = 12, prefix_id = 2, increment = 1, custom_message = None,
          hint = None, severity = INFO, dev_note = None, is_deprecated = False,
          use_generic_message = False, is_private = False\<rparr>]\<rparr>"

text \<open>The event code of the example database that has no custom message.\<close>

definition null_message_event :: EventCode where
  "null_message_event =
     \<lparr>e_id = 12, prefix_id = 2, increment = 1, custom_message = None,
      hint = None, severity = INFO, dev_note = None, is_deprecated = False,
      use_generic_message = False, is_private = False\<rparr>"

text \<open>A table with the one prefix \<open>A1\<close> and an event code with the increment \<open>5\<close> under it.\<close>

definition digit_prefix :: Prefix where
  "digit_prefix =
     \<lparr>p_id = 1, prefix = ''A1'', alias_p = ''Alpha'', description = None,
      parent_prefix_id = None\<rparr>"

definition digit_event :: EventCode where
  "digit_event =
     \<lparr>e_id = 1, prefix_id = 1, increment = 5, custom_message = None, hint = None,
      severity = ERROR, dev_note = None, is_deprecated = False, use_generic_message = False,
      is_private = False\<rparr>"

text \<open>The prefix id and the increment of every event code of a database.\<close>

definition event_code_keys :: "database \<Rightarrow> (int \<times> int) list" where
  "event_code_keys db = map (\<lambda>e. (prefix_id e, sint (increment e))) (event_codes_table db)"

section \<open>Increment allocator: \<open>auto_event_code_increment_function\<close> (db/triggers.py)\<close>

text \<open>
  The aggregate \<open>MAX\<close> is null over no rows, and \<open>COALESCE\<close> replaces a null by its
  second argument. The trigger function selects \<open>COALESCE(MAX(increment), 0) + 1\<close> over
  the rows of the table with the prefix id of the new row into \<open>NEW.increment\<close>. The
  sum is a 32-bit signed integer: beyond the greatest one the function raises
  \<open>integer out of range\<close> and the statement fails.
\<close>

definition sql_max :: "int list \<Rightarrow> int option" where
  "sql_max xs = (case xs of [] \<Rightarrow> None | x # ys \<Rightarrow> Some (fold max ys x))"

definition coalesce :: "int option \<Rightarrow> int \<Rightarrow> int" where
  "coalesce v d = (case v of None \<Rightarrow> d | Some x \<Rightarrow> x)"

definition auto_event_code_increment_function :: "EventCode list \<Rightarrow> EventCode \<Rightarrow> error + EventCode"
  where
  "auto_event_code_increment_function t NEW =
     (let m = coalesce (sql_max (map (\<lambda>e. sint (increment e))
                          (filter (\<lambda>e. prefix_id e = prefix_id NEW) t))) 0
      in if int4_max < m + 1 then Inl DBAPIError
         else Inr (NEW\<lparr>increment := word_of_int (m + 1)\<rparr>))"

text \<open>
  The greatest increment under a prefix in the words of the specification, \<open>0\<close> when the
  prefix has no event code.
\<close>

definition greatest_increment :: "EventCode list \<Rightarrow> int \<Rightarrow> int" where
  "greatest_increment t p =
     (let S = (\<lambda>e. sint (increment e)) ` {e \<in> set t. prefix_id e = p}
      in if S = {} then 0 else Max S)"

section \<open>Statements on the two tables under the declared constraints\<close>

text \<open>
  The statements that change the tables, with what db/models.py and db/triggers.py
  declare for them: both ids are primary keys; \<open>parent_prefix_id\<close> and \<open>prefix_id\<close> are
  foreign keys to \<open>prefixes.id\<close> with \<open>ON UPDATE CASCADE\<close> and \<open>ON DELETE CASCADE\<close>, the
  second not nullable; the trigger \<open>trg_auto_increment\<close> runs the allocator before each
  insert into the event codes. A statement that violates a key is rejected with an
  integrity error and changes nothing.
\<close>

definition prefix_ids :: "database \<Rightarrow> int set" where
  "prefix_ids db = p_id ` set (prefixes_table db)"

definition insert_prefix :: "database \<Rightarrow> Prefix \<Rightarrow> error + database" where
  "insert_prefix db new =
     (if p_id new \<in> prefix_ids db then Inl IntegrityError
      else case parent_prefix_id new of
             None \<Rightarrow> Inr (db\<lparr>prefixes_table := prefixes_table db @ [new]\<rparr>)
           | Some q \<Rightarrow>
               if q \<in> prefix_ids db \<or> q = p_id new
               then Inr (db\<lparr>prefixes_table := prefixes_table db @ [new]\<rparr>)
               else Inl IntegrityError)"

text \<open>
  \<open>UPDATE prefixes SET ... WHERE id = i\<close>. When the id changes, the update cascades to
  the rows that reference the old id, and the foreign key of the new row is checked after
  that.
\<close>

definition update_prefix :: "database \<Rightarrow> int \<Rightarrow> Prefix \<Rightarrow> error + database" where
  "update_prefix db i new =
     (if i \<notin> prefix_ids db then Inr db
      else if p_id new \<noteq> i \<and> p_id new \<in> prefix_ids db then Inl IntegrityError
      else
        let cascade = (\<lambda>r. if parent_prefix_id r = Some i
                             then r\<lparr>parent_prefix_id := Some (p_id new)\<rparr> else r);
            ps = map (\<lambda>r. cascade (if p_id r = i then new else r)) (prefixes_table db);
            es = map (\<lambda>e. if prefix_id e = i then e\<lparr>prefix_id := p_id new\<rparr> else e)
                   (event_codes_table db)
        in if (\<forall>r\<in>set ps. p_id r = p_id new \<longrightarrow>
                 (case parent_prefix_id r of None \<Rightarrow> True | Some q \<Rightarrow> q \<in> p_id ` set ps))
           then Inr \<lparr>prefixes_table = ps, event_codes_table = es\<rparr>
           else Inl IntegrityError)"

text \<open>
  \<open>DELETE FROM prefixes WHERE id = i\<close>. Deleting a row deletes the event codes that
  reference it and, in turn, the prefixes that reference it, which is a work list of ids
  still to delete.
\<close>

function delete_cascade :: "int list \<Rightarrow> database \<Rightarrow> database" where
  "delete_cascade [] db = db"
| "delete_cascade (i # todo) db =
     (if i \<in> prefix_ids db then
        delete_cascade
          (map p_id (filter (\<lambda>r. parent_prefix_id r = Some i \<and> p_id r \<noteq> i) (prefixes_table db))
             @ todo)
          \<lparr>prefixes_table = filter (\<lambda>r. p_id r \<noteq> i) (prefixes_table db),
           event_codes_table = filter (\<lambda>e. prefix_id e \<noteq> i) (event_codes_table db)\<rparr>
      else delete_cascade todo db)"
  by pat_completeness auto
termination
proof (relation "measures [\<lambda>(todo, db). length (prefixes_table db), \<lambda>(todo, db). length todo]")
  show "wf (measures [\<lambda>(todo, db). length (prefixes_table db), \<lambda>(todo, db). length todo])"
    by simp
next
  fix i :: int and todo :: "int list" and db :: database
  assume "i \<in> prefix_ids db"
  then obtain r where "r \<in> set (prefixes_table db)" "p_id r = i"
    by (auto simp: prefix_ids_def)
  then have "length (filter (\<lambda>r. p_id r \<noteq> i) (prefixes_table db)) < length (prefixes_table db)"
    by (intro length_filter_less[of r]) auto
  then show "((map p_id (filter (\<lambda>r. parent_prefix_id r = Some i \<and> p_id r \<noteq> i) (prefixes_table db))
                 @ todo,
               \<lparr>prefixes_table = filter (\<lambda>r. p_id r \<noteq> i) (prefixes_table db),
                event_codes_table = filter (\<lambda>e. prefix_id e \<noteq> i) (event_codes_table db)\<rparr>),
              (i # todo, db))
            \<in> measures [\<lambda>(todo, db). length (prefixes_table db), \<lambda>(todo, db). length todo]"
    by simp
next
  fix i :: int and todo :: "int list" and db :: database
  show "((todo, db), (i # todo, db))
          \<in> measures [\<lambda>(todo, db). length (prefixes_table db), \<lambda>(todo, db). length todo]"
    by simp
qed

definition delete_prefix :: "database \<Rightarrow> int \<Rightarrow> database" where
  "delete_prefix db i = delete_cascade [i] db"

text \<open>
  \<open>INSERT INTO event_codes\<close> runs in two steps. The trigger reads the rows that it sees
  and sets the increment of the new row; then the row is written and its keys are
  checked. In one statement on its own the write follows the read at once. The steps of
  two statements that run at the same time may alternate, and a row that is not yet
  written is not among the rows that the other read sees: the source declares no lock
  and no unique constraint on the prefix id and the increment.
\<close>

definition read_step :: "database \<Rightarrow> EventCode \<Rightarrow> error + EventCode" where
  "read_step db new = auto_event_code_increment_function (event_codes_table db) new"

definition write_step :: "database \<Rightarrow> EventCode \<Rightarrow> error + database" where
  "write_step db NEW =
     (if e_id NEW \<in> e_id ` set (event_codes_table db) then Inl IntegrityError
      else if prefix_id NEW \<notin> prefix_ids db then Inl IntegrityError
      else Inr (db\<lparr>event_codes_table := event_codes_table db @ [NEW]\<rparr>))"

definition insert_event_code :: "database \<Rightarrow> EventCode \<Rightarrow> error + database" where
  "insert_event_code db new =
     (case read_step db new of
        Inl e \<Rightarrow> Inl e
      | Inr NEW \<Rightarrow> write_step db NEW)"

text \<open>Insertions one after another, stopping at the first that fails.\<close>

fun insert_all :: "database \<Rightarrow> EventCode list \<Rightarrow> error + database" where
  "insert_all db [] = Inr db"
| "insert_all db (new # news) =
     (case insert_event_code db new of
        Inl e \<Rightarrow> Inl e
      | Inr db' \<Rightarrow> insert_all db' news)"

definition update_event_code :: "database \<Rightarrow> nat \<Rightarrow> EventCode \<Rightarrow> error + database" where
  "update_event_code db i new =
     (if i \<notin> e_id ` set (event_codes_table db) then Inr db
      else if e_id new \<noteq> i \<and> e_id new \<in> e_id ` set (event_codes_table db) then Inl IntegrityError
      else if prefix_id new \<notin> prefix_ids db then Inl IntegrityError
      else Inr (db\<lparr>event_codes_table :=
                   map (\<lambda>e. if e_id e = i then new else e) (event_codes_table db)\<rparr>))"

definition delete_event_code :: "database \<Rightarrow> nat \<Rightarrow> database" where
  "delete_event_code db i =
     db\<lparr>event_codes_table := filter (\<lambda>e. e_id e \<noteq> i) (event_codes_table db)\<rparr>"

datatype statement =
    InsertPrefix Prefix
  | UpdatePrefix int Prefix
  | DeletePrefix int
  | InsertEventCode EventCode
  | UpdateEventCode nat EventCode
  | DeleteEventCode nat

fun execute :: "database \<Rightarrow> statement \<Rightarrow> error + database" where
  "execute db (InsertPrefix new) = insert_prefix db new"
| "execute db (UpdatePrefix i new) = update_prefix db i new"
| "execute db (DeletePrefix i) = Inr (delete_prefix db i)"
| "execute db (InsertEventCode new) = insert_event_code db new"
| "execute db (UpdateEventCode i new) = update_event_code db i new"
| "execute db (DeleteEventCode i) = Inr (delete_event_code db i)"

text \<open>A sequence of statements; a rejected statement leaves the database as it was.\<close>

fun run :: "database \<Rightarrow> statement list \<Rightarrow> database" where
  "run db [] = db"
| "run db (s # ss) = (case execute db s of Inl e \<Rightarrow> run db ss | Inr db' \<Rightarrow> run db' ss)"

definition empty_db :: database where
  "empty_db = \<lparr>prefixes_table = [], event_codes_table = []\<rparr>"

text \<open>An event code is an orphan when no prefix has its prefix id.\<close>

definition no_orphans :: "database \<Rightarrow> bool" where
  "no_orphans db = (\<forall>e\<in>set (event_codes_table db). prefix_id e \<in> prefix_ids db)"

text \<open>
  \<open>descends t i j\<close>: the id \<open>j\<close> is \<open>i\<close> or the id of a row of \<open>t\<close> that is a child, a
  grandchild and so on of \<open>i\<close>.
\<close>

inductive descends :: "Prefix list \<Rightarrow> int \<Rightarrow> int \<Rightarrow> bool" for t :: "Prefix list" and i :: int
  where
  self: "descends t i i"
| step: "descends t i q \<Longrightarrow> r \<in> set t \<Longrightarrow> parent_prefix_id r = Some q \<Longrightarrow> descends t i (p_id r)"

text \<open>
  A new event code as the admin creates it (the increment has its column default) and
  the example database after one, two and three creations under the prefix \<open>3\<close>.
\<close>

definition new_event_code :: "nat \<Rightarrow> int \<Rightarrow> EventCode" where
  "new_event_code i p =
     \<lparr>e_id = i, prefix_id = p, increment = 0, custom_message = None, hint = None,
      severity = ERROR, dev_note = None, is_deprecated = False, use_generic_message = False,
      is_private = False\<rparr>"

definition created_1 :: database where
  "created_1 = tree_db\<lparr>event_codes_table :=
     event_codes_table tree_db @ [(new_event_code 20 3)\<lparr>increment := 1\<rparr>]\<rparr>"

definition created_2 :: database where
  "created_2 = created_1\<lparr>event_codes_table :=
     event_codes_table created_1 @ [(new_event_code 21 3)\<lparr>increment := 2\<rparr>]\<rparr>"

definition created_3 :: database where
  "created_3 = created_2\<lparr>event_codes_table :=
     event_codes_table created_2 @ [(new_event_code 22 3)\<lparr>increment := 3\<rparr>]\<rparr>"

text \<open>
  The example database after two creations under the prefix \<open>3\<close> whose reads both came
  before the writes, and the example database with an event code at the greatest
  increment under the prefix \<open>3\<close>.
\<close>

definition raced_2 :: database where
  "raced_2 = created_1\<lparr>event_codes_table :=
     event_codes_table created_1 @ [(new_event_code 21 3)\<lparr>increment := 1\<rparr>]\<rparr>"

definition full_db :: database where
  "full_db = tree_db\<lparr>event_codes_table :=
     event_codes_table tree_db @ [(new_event_code 30 3)\<lparr>increment := 2147483647\<rparr>]\<rparr>"

text \<open>New rows with the consecutive increments from \<open>k\<close> on.\<close>

fun number_from :: "int \<Rightarrow> EventCode list \<Rightarrow> EventCode list" where
  "number_from k [] = []"
| "number_from k (e # es) = e\<lparr>increment := word_of_int k\<rparr> # number_from (k + 1) es"


text \<open>
  The keys as invariants of a database: the prefix ids are distinct, and every parent id
  is the id of a prefix.
\<close>

definition primary_key :: "database \<Rightarrow> bool" where
  "primary_key db = distinct (map p_id (prefixes_table db))"

definition parents_exist :: "database \<Rightarrow> bool" where
  "parents_exist db =
     (\<forall>r\<in>set (prefixes_table db). \<forall>q. parent_prefix_id r = Some q \<longrightarrow> q \<in> prefix_ids db)"

text \<open>
  While a cascade runs, a row may have a parent that is already deleted; then its own id
  is still to be deleted.
\<close>

definition pending :: "int list \<Rightarrow> database \<Rightarrow> bool" where
  "pending ws db =
     (\<forall>r\<in>set (prefixes_table db). \<forall>q. parent_prefix_id r = Some q \<longrightarrow>
        q \<in> prefix_ids db \<or> p_id r \<in> set ws)"

text \<open>The three invariants together.\<close>

definition keys_hold :: "database \<Rightarrow> bool" where
  "keys_hold db = (primary_key db \<and> parents_exist db \<and> no_orphans db)"

text \<open>
  Statements that build a tree with the chain \<open>A\<close>, \<open>LOGIN\<close>, \<open>OAUTH\<close> and a second root,
  with one event code under \<open>OAUTH\<close>, one under the second root and one for a prefix that
  is not there, and the database they lead to.
\<close>

definition tree_statements :: "statement list" where
  "tree_statements =
     [InsertPrefix \<lparr>p_id = 1, prefix = ''A'', alias_p = ''Auth'', description = None,
                    parent_prefix_id = None\<rparr>,
      InsertPrefix \<lparr>p_id = 2, prefix = ''LOGIN'', alias_p = ''Login'', description = None,
                    parent_prefix_id = Some 1\<rparr>,
      InsertPrefix \<lparr>p_id = 3, prefix = ''OAUTH'', alias_p = ''OAuth'', description = None,
                    parent_prefix_id = Some 2\<rparr>,
      InsertPrefix \<lparr>p_id = 4, prefix = ''B'', alias_p = ''Billing'', description = None,
                    parent_prefix_id = None\<rparr>,
      InsertEventCode (new_event_code 20 3),
      InsertEventCode (new_event_code 21 4),
      InsertEventCode (new_event_code 22 7)]"

definition tree_statements_db :: database where
  "tree_statements_db =
     \<lparr>prefixes_table =
        [\<lparr>p_id = 1, prefix = ''A'', alias_p = ''Auth'', description = None,
          parent_prefix_id = None\<rparr>,
         \<lparr>p_id = 2, prefix = ''LOGIN'', alias_p = ''Login'', description = None,
          parent_prefix_id = Some 1\<rparr>,
         \<lparr>p_id = 3, prefix = ''OAUTH'', alias_p = ''OAuth'', description = None,
          parent_prefix_id = Some 2\<rparr>,
         \<lparr>p_id = 4, prefix = ''B'', alias_p = ''Billing'', description = None,
          parent_prefix_id = None\<rparr>],
      event_codes_table =
        [(new_event_code 20 3)\<lparr>increment := 1\<rparr>, (new_event_code 21 4)\<lparr>increment := 1\<rparr>]\<rparr>"

text \<open>
  The working tables of the recursive expression in turn: the anchor, then the recursive
  term on the previous one.
\<close>

primrec level :: "Prefix list \<Rightarrow> nat \<Rightarrow> cte_row list" where
  "level t 0 = anchor t"
| "level t (Suc k) = recursive t (level t k)"

text \<open>
  The uniqueness of \<open>(parent_id, segment)\<close> and the absence of dots in the segments, as the
  data model of the specification has them.
\<close>

definition unique_segments :: "Prefix list \<Rightarrow> bool" where
  "unique_segments t =
     (\<forall>r\<in>set t. \<forall>r'\<in>set t.
        parent_prefix_id r = parent_prefix_id r' \<and> prefix r = prefix r' \<longrightarrow> r = r')"

definition no_dots :: "Prefix list \<Rightarrow> bool" where
  "no_dots t = (\<forall>r\<in>set t. CHR ''.'' \<notin> set (prefix r))"

section \<open>Properties of the code grammar\<close>

lemma split_dot_nonempty: "split_dot s \<noteq> []"
  by (induction s) auto

lemma split_dot_nodot: "CHR ''.'' \<notin> set x \<Longrightarrow> split_dot x = [x]"
  by (induction x) auto

lemma split_dot_append_dot:
  "CHR ''.'' \<notin> set x \<Longrightarrow> split_dot (x @ CHR ''.'' # r) = x # split_dot r"
  by (induction x) auto

lemma split_join_dot:
  "S \<noteq> [] \<Longrightarrow> \<forall>x\<in>set S. CHR ''.'' \<notin> set x \<Longrightarrow> split_dot (join_dot S) = S"
  by (induction S rule: join_dot.induct) (auto simp: split_dot_nodot split_dot_append_dot)

lemma is_digit_digit_char: "d < 10 \<Longrightarrow> is_digit (digit_char d)"
  by (simp add: is_digit_def digit_char_def)

lemma digit_val_digit_char: "d < 10 \<Longrightarrow> digit_val (digit_char d) = int d"
  by (simp add: digit_val_def digit_char_def)

lemma nat_digits_nonempty: "nat_digits n \<noteq> []"
  by (subst nat_digits.simps) simp

lemma nat_digits_all_digits: "list_all is_digit (nat_digits n)"
proof (induction n rule: nat_digits.induct)
  case (1 n)
  show ?case
  proof (cases "n < 10")
    case True
    then show ?thesis by (subst nat_digits.simps) (simp add: is_digit_digit_char)
  next
    case False
    with 1 show ?thesis by (subst nat_digits.simps) (simp add: is_digit_digit_char)
  qed
qed

lemma int_of_digits_snoc: "int_of_digits (ds @ [c]) = 10 * int_of_digits ds + digit_val c"
  by (simp add: int_of_digits_def)

lemma int_of_nat_digits: "int_of_digits (nat_digits n) = int n"
proof (induction n rule: nat_digits.induct)
  case (1 n)
  show ?case
  proof (cases "n < 10")
    case True
    then show ?thesis
      by (subst nat_digits.simps) (simp add: int_of_digits_def digit_val_digit_char)
  next
    case False
    with 1 have "int_of_digits (nat_digits (n div 10)) = int (n div 10)" by simp
    moreover have "10 * int (n div 10) + int (n mod 10) = int n" by presburger
    ultimately show ?thesis using False
      by (subst nat_digits.simps) (simp add: int_of_digits_snoc digit_val_digit_char)
  qed
qed

lemma foldl_digits_zeros:
  "foldl (\<lambda>a c. 10 * a + digit_val c) 0 (replicate k (CHR ''0'') @ ds) =
   foldl (\<lambda>a c. 10 * a + digit_val c) 0 ds"
  by (induction k) (simp_all add: digit_val_def)

lemma int_of_digits_zeros: "int_of_digits (replicate k (CHR ''0'') @ ds) = int_of_digits ds"
  by (simp add: int_of_digits_def foldl_digits_zeros del: foldl_append)

lemma is_digit_zero: "is_digit (CHR ''0'')"
  by (simp add: is_digit_def)

lemma list_all_replicate: "P c \<Longrightarrow> list_all P (replicate k c)"
  by (induction k) simp_all

lemma nat_digits_length: "n < 10 ^ k \<Longrightarrow> 0 < k \<Longrightarrow> length (nat_digits n) \<le> k"
proof (induction n arbitrary: k rule: nat_digits.induct)
  case (1 n)
  show ?case
  proof (cases "n < 10")
    case True
    with 1(3) show ?thesis by (subst nat_digits.simps) simp
  next
    case False
    from 1(3) obtain j where k: "k = Suc j" by (cases k) auto
    from False 1(2) k have "0 < j" by (cases j) auto
    moreover from 1(2) k have "n div 10 < 10 ^ j" by (simp add: less_mult_imp_div_less mult.commute)
    ultimately have "length (nat_digits (n div 10)) \<le> j"
      using 1(1)[OF False] by simp
    with False k show ?thesis by (subst nat_digits.simps) simp
  qed
qed

lemma pad_0_4_digits:
  assumes "ds \<noteq> []" and "list_all is_digit ds"
  shows "pad_0_4 ds \<noteq> []" and "list_all is_digit (pad_0_4 ds)"
    and "int_of_digits (pad_0_4 ds) = int_of_digits ds"
    and "length (pad_0_4 ds) = max 4 (length ds)"
  using assms
  by (simp_all add: pad_0_4_def int_of_digits_zeros list_all_replicate is_digit_zero)

lemma format_0_4_nonneg:
  assumes "0 \<le> n" and "length (nat_digits (nat n)) \<le> int_max_str_digits"
  shows "format_0_4 n = Inr (pad_0_4 (nat_digits (nat n)))"
    and "py_int (pad_0_4 (nat_digits (nat n))) = Inr n"
proof -
  from assms show "format_0_4 n = Inr (pad_0_4 (nat_digits (nat n)))"
    by (simp add: format_0_4_def str_int_def)
  have "length (pad_0_4 (nat_digits (nat n))) \<le> int_max_str_digits"
    using assms(2) pad_0_4_digits(4)[OF nat_digits_nonempty nat_digits_all_digits, of "nat n"]
    by (simp add: int_max_str_digits_def)
  moreover have "int_of_digits (pad_0_4 (nat_digits (nat n))) = n"
    using assms(1) pad_0_4_digits(3)[OF nat_digits_nonempty nat_digits_all_digits, of "nat n"]
    by (simp add: int_of_nat_digits)
  ultimately show "py_int (pad_0_4 (nat_digits (nat n))) = Inr n"
    by (simp add: py_int_def)
qed

lemma sint_digits_length:
  "length (nat_digits (nat \<bar>sint (w :: 32 word)\<bar>)) \<le> int_max_str_digits"
proof -
  have "sint w < 2 ^ 31" using sint_lt[of w] by simp
  moreover have "- (2 ^ 31) \<le> sint w" using sint_ge[of w] by simp
  ultimately have "nat \<bar>sint w\<bar> < 10 ^ 10" by simp
  then have "length (nat_digits (nat \<bar>sint w\<bar>)) \<le> 10"
    by (rule nat_digits_length) simp
  then show ?thesis by (simp add: int_max_str_digits_def)
qed

lemma digit_not_prefix_char: "is_digit c \<Longrightarrow> \<not> is_prefix_char c"
  by (auto simp: is_digit_def is_prefix_char_def is_letter_def)

lemma takeWhile_all_append:
  "list_all P xs \<Longrightarrow> (ys = [] \<or> \<not> P (hd ys)) \<Longrightarrow> takeWhile P (xs @ ys) = xs"
  by (induction xs) (auto simp: takeWhile_eq_Nil_iff)

lemma dropWhile_all_append:
  "list_all P xs \<Longrightarrow> (ys = [] \<or> \<not> P (hd ys)) \<Longrightarrow> dropWhile P (xs @ ys) = ys"
  by (induction xs) (auto simp: dropWhile_eq_self_iff)

lemma leading_match_pattern:
  assumes "leading_match s p d"
  shows "pattern_match s = Some (p, d)"
proof -
  from assms obtain rest where s: "s = p @ d @ rest" and p: "p \<noteq> []" "list_all is_prefix_char p"
    and d: "d \<noteq> []" "list_all is_digit d" and r: "rest = [] \<or> \<not> is_digit (hd rest)"
    unfolding leading_match_def by blast
  from d obtain c cs where dc: "d = c # cs" and c: "is_digit c"
    by (cases d) auto
  have hd: "d @ rest = [] \<or> \<not> is_prefix_char (hd (d @ rest))"
    using dc c by (simp add: digit_not_prefix_char)
  have t: "takeWhile is_prefix_char (p @ d @ rest) = p"
    using p(2) hd by (rule takeWhile_all_append)
  have dr: "dropWhile is_prefix_char (p @ d @ rest) = d @ rest"
    using p(2) hd by (rule dropWhile_all_append)
  have tw: "takeWhile is_digit (d @ rest) = d"
    using d(2) r by (rule takeWhile_all_append)
  show ?thesis
    unfolding pattern_match_def Let_def s t dr tw using p(1) d(1) by simp
qed

lemma pattern_match_leading:
  assumes "pattern_match s = Some (p, d)"
  shows "leading_match s p d"
proof -
  from assms have p: "p = takeWhile is_prefix_char s"
    and d: "d = takeWhile is_digit (dropWhile is_prefix_char s)"
    and ne: "p \<noteq> []" "d \<noteq> []"
    by (auto simp: pattern_match_def Let_def split: if_splits)
  define rest where "rest = dropWhile is_digit (dropWhile is_prefix_char s)"
  have "s = p @ dropWhile is_prefix_char s"
    unfolding p by simp
  also have "dropWhile is_prefix_char s = d @ rest"
    unfolding d rest_def by simp
  finally have s: "s = p @ d @ rest" .
  have r: "rest = [] \<or> \<not> is_digit (hd rest)"
    unfolding rest_def using hd_dropWhile[of is_digit "dropWhile is_prefix_char s"] by blast
  have "list_all is_prefix_char p" unfolding p list_all_iff by (auto dest: set_takeWhileD)
  moreover have "list_all is_digit d" unfolding d list_all_iff by (auto dest: set_takeWhileD)
  ultimately show ?thesis
    unfolding leading_match_def using s ne r by blast
qed

lemma pattern_match_iff: "pattern_match s \<noteq> None \<longleftrightarrow> has_leading_match s"
proof
  assume "pattern_match s \<noteq> None"
  then obtain p d where "pattern_match s = Some (p, d)" by auto
  then have "leading_match s p d" by (rule pattern_match_leading)
  then show "has_leading_match s" unfolding has_leading_match_def by blast
next
  assume "has_leading_match s"
  then obtain p d where "leading_match s p d" unfolding has_leading_match_def by blast
  then have "pattern_match s = Some (p, d)" by (rule leading_match_pattern)
  then show "pattern_match s \<noteq> None" by simp
qed

lemma parse_error_code_no_match: "\<not> has_leading_match s \<Longrightarrow> parse_error_code s = Inl AttributeError"
proof -
  assume "\<not> has_leading_match s"
  with pattern_match_iff[of s] have "\<not> pattern_match s \<noteq> None" by (rule ssubst)
  then have "pattern_match s = None" by (rule notnotD)
  then show ?thesis by (simp add: parse_error_code_def)
qed

lemma parse_error_code_match:
  "leading_match s p d \<Longrightarrow>
   parse_error_code s =
     (if int_max_str_digits < length d then Inl ValueError
      else Inr (split_dot p, int_of_digits d))"
  unfolding parse_error_code_def by (simp add: leading_match_pattern py_int_def)

lemma split_dot_chars:
  "list_all (\<lambda>seg. list_all is_letter seg) (split_dot b) \<Longrightarrow> list_all is_prefix_char b"
proof (induction b)
  case Nil
  then show ?case by simp
next
  case (Cons c cs)
  obtain x xs where sp: "split_dot cs = x # xs"
    using split_dot_nonempty[of cs] by (cases "split_dot cs") auto
  show ?case
  proof (cases "c = CHR ''.''")
    case True
    with Cons show ?thesis by (simp add: is_prefix_char_def)
  next
    case False
    with Cons sp show ?thesis by (simp add: is_prefix_char_def)
  qed
qed

lemma spec_grammar_leading:
  assumes "spec_code_grammar s"
  shows "has_leading_match s"
proof -
  define ds where "ds = rev (takeWhile is_digit (rev s))"
  define b where "b = rev (dropWhile is_digit (rev s))"
  have "rev s = takeWhile is_digit (rev s) @ dropWhile is_digit (rev s)" by simp
  then have "rev (rev s) = rev (takeWhile is_digit (rev s) @ dropWhile is_digit (rev s))"
    by (rule arg_cong)
  then have s: "s = b @ ds @ []"
    unfolding ds_def b_def by (simp del: takeWhile_dropWhile_id)
  from assms have ne: "ds \<noteq> []"
    and segs: "list_all (\<lambda>seg. seg \<noteq> [] \<and> list_all is_letter seg) (split_dot b)"
    unfolding spec_code_grammar_def Let_def ds_def b_def by auto
  have digs: "list_all is_digit ds"
    unfolding ds_def list_all_iff by (auto dest: set_takeWhileD)
  from segs have "list_all (\<lambda>seg. list_all is_letter seg) (split_dot b)"
    unfolding list_all_iff by blast
  then have pc: "list_all is_prefix_char b" by (rule split_dot_chars)
  have "b \<noteq> []"
  proof
    assume "b = []"
    with segs show False by simp
  qed
  with s ne digs pc have "leading_match s b ds"
    unfolding leading_match_def by blast
  then show ?thesis unfolding has_leading_match_def by blast
qed

text \<open>
  Claim C3, as the code has it. A string without a leading match of the pattern is
  rejected: the failed match is \<open>None\<close> and the attribute access on it raises
  \<open>AttributeError\<close>; the code has no error of its own for a malformed code. This covers
  the empty string, every string without a digit, and every string whose first
  character is neither a letter nor a dot. A string with a leading match whose group of
  digits is longer than the limit of \<open>int\<close> is rejected with \<open>ValueError\<close>. Every other
  string with a leading match is parsed into the segments of the first group and the
  number of the second, and every string of the grammar has a leading match.
\<close>

theorem parse_error_code_rejection:
  "(\<not> has_leading_match c \<longrightarrow> parse_error_code c = Inl AttributeError) \<and>
   (leading_match c p d \<longrightarrow>
      parse_error_code c =
        (if int_max_str_digits < length d then Inl ValueError
         else Inr (split_dot p, int_of_digits d))) \<and>
   (spec_code_grammar c \<longrightarrow> has_leading_match c) \<and>
   parse_error_code [] = Inl AttributeError \<and>
   ((\<forall>x\<in>set c. \<not> is_digit x) \<longrightarrow> parse_error_code c = Inl AttributeError) \<and>
   (\<not> is_prefix_char x \<longrightarrow> parse_error_code (x # c) = Inl AttributeError)"
proof (intro conjI impI)
  assume "\<not> has_leading_match c"
  then show "parse_error_code c = Inl AttributeError"
    by (rule parse_error_code_no_match)
next
  assume "leading_match c p d"
  then show "parse_error_code c =
        (if int_max_str_digits < length d then Inl ValueError
         else Inr (split_dot p, int_of_digits d))"
    by (rule parse_error_code_match)
next
  assume "spec_code_grammar c"
  then show "has_leading_match c" by (rule spec_grammar_leading)
next
  show "parse_error_code [] = Inl AttributeError"
    by (simp add: parse_error_code_def pattern_match_def)
next
  assume nd: "\<forall>x\<in>set c. \<not> is_digit x"
  have "\<not> has_leading_match c"
  proof
    assume "has_leading_match c"
    then obtain p d rest where "c = p @ d @ rest" "d \<noteq> []" "list_all is_digit d"
      unfolding has_leading_match_def leading_match_def by blast
    then have "hd d \<in> set c" "is_digit (hd d)"
      by (cases d; simp)+
    with nd show False by blast
  qed
  then show "parse_error_code c = Inl AttributeError"
    by (rule parse_error_code_no_match)
next
  assume "\<not> is_prefix_char x"
  then show "parse_error_code (x # c) = Inl AttributeError"
    by (simp add: parse_error_code_def pattern_match_def)
qed

text \<open>
  The rejections and the acceptance at concrete strings, among them a code with 4301
  digits.
\<close>

theorem parse_error_code_rejection_witness:
  "parse_error_code ''ABC'' = Inl AttributeError \<and>
   parse_error_code ''-A1'' = Inl AttributeError \<and>
   parse_error_code ''AUTH.LOGIN0004'' = Inr ([''AUTH'', ''LOGIN''], 4) \<and>
   parse_error_code (''A'' @ replicate 4301 (CHR ''1'')) = Inl ValueError"
proof -
  have a: "\<forall>x\<in>set ''ABC''. \<not> is_digit x"
    by (simp add: is_digit_def)
  have b: "\<not> is_prefix_char (CHR ''-'')"
    by (simp add: is_prefix_char_def is_letter_def)
  have c: "leading_match ''AUTH.LOGIN0004'' ''AUTH.LOGIN'' ''0004''"
    by (simp add: leading_match_def is_prefix_char_def is_letter_def is_digit_def)
  have "is_digit (CHR ''1'')" by (simp add: is_digit_def)
  then have "list_all is_digit (replicate 4301 (CHR ''1''))" by (rule list_all_replicate)
  then have d: "leading_match (''A'' @ replicate 4301 (CHR ''1'')) ''A'' (replicate 4301 (CHR ''1''))"
    unfolding leading_match_def
    by (intro exI[of _ "[]"]) (simp add: is_prefix_char_def is_letter_def)
  from parse_error_code_rejection[of "''ABC''" "[]" "[]" "CHR ''-''"] a
  have 1: "parse_error_code ''ABC'' = Inl AttributeError" by blast
  from parse_error_code_rejection[of "''A1''" "[]" "[]" "CHR ''-''"] b
  have 2: "parse_error_code ''-A1'' = Inl AttributeError" by blast
  from parse_error_code_rejection[of "''AUTH.LOGIN0004''" "''AUTH.LOGIN''" "''0004''" "CHR ''-''"] c
  have "parse_error_code ''AUTH.LOGIN0004'' =
      (if int_max_str_digits < length ''0004'' then Inl ValueError
       else Inr (split_dot ''AUTH.LOGIN'', int_of_digits ''0004''))"
    by blast
  then have 3: "parse_error_code ''AUTH.LOGIN0004'' = Inr ([''AUTH'', ''LOGIN''], 4)"
    by (simp add: int_max_str_digits_def int_of_digits_def digit_val_def)
  from parse_error_code_rejection[of "''A'' @ replicate 4301 (CHR ''1'')" "''A''"
      "replicate 4301 (CHR ''1'')" "CHR ''-''"] d
  have "parse_error_code (''A'' @ replicate 4301 (CHR ''1'')) =
      (if int_max_str_digits < length (replicate 4301 (CHR ''1'')) then Inl ValueError
       else Inr (split_dot ''A'', int_of_digits (replicate 4301 (CHR ''1''))))"
    by blast
  then have 4: "parse_error_code (''A'' @ replicate 4301 (CHR ''1'')) = Inl ValueError"
    by (simp add: int_max_str_digits_def)
  from 1 2 3 4 show ?thesis by blast
qed

text \<open>
  Claim C3 as stated fails: strings outside the grammar, with an empty segment between
  two dots or after a leading dot, or with a character after the digits, are parsed.
\<close>

theorem parse_error_code_accepts_malformed:
  "\<not> spec_code_grammar ''A..B1'' \<and> parse_error_code ''A..B1'' = Inr ([''A'', [], ''B''], 1) \<and>
   \<not> spec_code_grammar ''.A1'' \<and> parse_error_code ''.A1'' = Inr ([[], ''A''], 1) \<and>
   \<not> spec_code_grammar ''A1!'' \<and> parse_error_code ''A1!'' = Inr ([''A''], 1)"
  by code_simp

lemma join_dot_chars:
  "\<forall>x\<in>set S. list_all is_letter x \<Longrightarrow> list_all is_prefix_char (join_dot S)"
  by (induction S rule: join_dot.induct) (auto simp: is_prefix_char_def list_all_iff)

lemma join_dot_nonempty: "S \<noteq> [] \<Longrightarrow> \<forall>x\<in>set S. x \<noteq> [] \<Longrightarrow> join_dot S \<noteq> []"
  by (induction S rule: join_dot.induct) auto

lemma letter_not_dot: "list_all is_letter x \<Longrightarrow> CHR ''.'' \<notin> set x"
  by (auto simp: list_all_iff is_letter_def)

lemma join_dot_snoc: "S \<noteq> [] \<Longrightarrow> join_dot (S @ [x]) = join_dot S @ ''.'' @ x"
  by (induction S rule: join_dot.induct) simp_all

lemma find_distinct:
  "distinct (map p_id t) \<Longrightarrow> p \<in> set t \<Longrightarrow> find (\<lambda>r. p_id r = p_id p) t = Some p"
  by (induction t) (auto simp: image_iff)

lemma prefix_chain_nonempty: "prefix_chain t r S \<Longrightarrow> S \<noteq> []"
  by (induction rule: prefix_chain.induct) simp_all

lemma Prefix_str_value_chain:
  assumes d: "distinct (map p_id t)" and z: "\<forall>r\<in>set t. parent_prefix_id r \<noteq> Some 0"
  shows "prefix_chain t r S \<Longrightarrow> Prefix_str_value t r = Some (Inr (join_dot S))"
proof (induction rule: prefix_chain.induct)
  case (root r)
  then show ?case by (subst Prefix_str_value.simps) simp
next
  case (child r q p S)
  from z child(1,2) have q: "q \<noteq> 0" by auto
  from find_distinct[OF d child(3)] child(4) have f: "find (\<lambda>x. p_id x = q) t = Some p"
    by simp
  from child(5) have "S \<noteq> []" by (rule prefix_chain_nonempty)
  then have j: "join_dot (S @ [prefix r]) = join_dot S @ ''.'' @ prefix r"
    by (rule join_dot_snoc)
  show ?case
    by (subst Prefix_str_value.simps) (simp add: child(2) q f child.IH j)
qed

text \<open>
  Claim C4, as the code has it. In a table with distinct ids in which no row has the
  parent id \<open>0\<close>, for an event code whose prefix has a chain of non-empty segments made of
  ASCII letters only and whose increment is not negative, \<open>EventCode.str_value\<close> returns
  the chain joined by dots followed by the increment padded with zeros to four digits,
  and parsing this string gives the chain and the increment back.
\<close>

theorem str_value_parse_round_trip:
  assumes "distinct (map p_id t)" and "\<forall>r\<in>set t. parent_prefix_id r \<noteq> Some 0"
    and "p \<in> set t" and "p_id p = prefix_id e" and "prefix_chain t p S"
    and "\<forall>x\<in>set S. x \<noteq> [] \<and> list_all is_letter x"
    and "0 \<le> sint (increment e)"
  shows "EventCode_str_value t e =
           Some (Inr (join_dot S @ pad_0_4 (nat_digits (nat (sint (increment e)))))) \<and>
         parse_error_code (join_dot S @ pad_0_4 (nat_digits (nat (sint (increment e))))) =
           Inr (S, sint (increment e))"
proof -
  let ?n = "sint (increment e)"
  let ?f = "pad_0_4 (nat_digits (nat ?n))"
  have len: "length (nat_digits (nat ?n)) \<le> int_max_str_digits"
    using sint_digits_length[of "increment e"] assms(7) by simp
  note fmt = format_0_4_nonneg[OF assms(7) len]
  have f: "find (\<lambda>r. p_id r = prefix_id e) t = Some p"
    using find_distinct[OF assms(1,3)] assms(4) by simp
  have sv: "Prefix_str_value t p = Some (Inr (join_dot S))"
    using assms(1,2,5) by (rule Prefix_str_value_chain)
  have 1: "EventCode_str_value t e = Some (Inr (join_dot S @ ?f))"
    unfolding EventCode_str_value_def by (simp add: f sv fmt(1))
  have ne: "S \<noteq> []" using assms(5) by (rule prefix_chain_nonempty)
  have p1: "join_dot S \<noteq> []"
    using ne assms(6) by (simp add: join_dot_nonempty)
  have p2: "list_all is_prefix_char (join_dot S)"
    using assms(6) by (simp add: join_dot_chars)
  have d1: "?f \<noteq> []" "list_all is_digit ?f"
    by (rule pad_0_4_digits[OF nat_digits_nonempty nat_digits_all_digits])+
  have "leading_match (join_dot S @ ?f) (join_dot S) ?f"
    unfolding leading_match_def using p1 p2 d1 by (intro exI[of _ "[]"]) simp
  then have "pattern_match (join_dot S @ ?f) = Some (join_dot S, ?f)"
    by (rule leading_match_pattern)
  moreover have "split_dot (join_dot S) = S"
    using ne assms(6) by (simp add: split_join_dot letter_not_dot)
  ultimately have 2: "parse_error_code (join_dot S @ ?f) = Inr (S, ?n)"
    unfolding parse_error_code_def by (simp add: fmt(2))
  from 1 2 show ?thesis by (rule conjI)
qed

text \<open>The event code under \<open>A.LOGIN\<close> of the example database.\<close>

theorem str_value_parse_round_trip_witness:
  "EventCode_str_value (prefixes_table tree_db) null_message_event = Some (Inr ''A.LOGIN0001'') \<and>
   parse_error_code ''A.LOGIN0001'' = Inr ([''A'', ''LOGIN''], 1)"
proof -
  let ?t = "prefixes_table tree_db"
  let ?a = "\<lparr>p_id = 1, prefix = ''A'', alias_p = ''Auth'', description = None,
          parent_prefix_id = None\<rparr>"
  let ?login = "\<lparr>p_id = 2, prefix = ''LOGIN'', alias_p = ''Login'', description = None,
          parent_prefix_id = Some 1\<rparr>"
  have mem: "?a \<in> set ?t" "?login \<in> set ?t"
    by (simp_all add: tree_db_def)
  have d: "distinct (map p_id ?t)" by (simp add: tree_db_def)
  have z: "\<forall>r\<in>set ?t. parent_prefix_id r \<noteq> Some 0" by (simp add: tree_db_def)
  have "prefix_chain ?t ?a [prefix ?a]"
    using mem(1) by (rule prefix_chain.root) simp
  then have "prefix_chain ?t ?login ([prefix ?a] @ [prefix ?login])"
    by (intro prefix_chain.child[OF mem(2) _ mem(1)]) simp_all
  then have c: "prefix_chain ?t ?login [''A'', ''LOGIN'']" by simp
  have l: "\<forall>x\<in>set [''A'', ''LOGIN'']. x \<noteq> [] \<and> list_all is_letter x"
    by (simp add: is_letter_def)
  have e: "p_id ?login = prefix_id null_message_event" "0 \<le> sint (increment null_message_event)"
    by (simp_all add: null_message_event_def)
  have n: "sint (increment null_message_event) = 1"
    by (simp add: null_message_event_def)
  have s: "join_dot [''A'', ''LOGIN''] @ pad_0_4 (nat_digits (nat 1)) = ''A.LOGIN0001''"
    by code_simp
  from str_value_parse_round_trip[OF d z mem(2) e(1) c l e(2)]
  show ?thesis unfolding n s .
qed

text \<open>
  Claim C4 as stated fails: a segment with a digit is valid in the sense of the claim,
  and its digit is read as part of the increment.
\<close>

theorem str_value_parse_digit_segment:
  "spec_valid_segment ''A1'' \<and> prefix_chain [digit_prefix] digit_prefix [''A1''] \<and>
   sint (increment digit_event) = 5 \<and>
   EventCode_str_value [digit_prefix] digit_event = Some (Inr ''A10005'') \<and>
   parse_error_code ''A10005'' = Inr ([''A''], 10005)"
proof -
  have 1: "spec_valid_segment ''A1''" by code_simp
  have "prefix_chain [digit_prefix] digit_prefix [prefix digit_prefix]"
    by (rule prefix_chain.root) (simp_all add: digit_prefix_def)
  then have 2: "prefix_chain [digit_prefix] digit_prefix [''A1'']"
    by (simp add: digit_prefix_def)
  have 3: "sint (increment digit_event) = 5" by (simp add: digit_event_def)
  have "Prefix_str_value [digit_prefix] digit_prefix = Some (Inr ''A1'')"
    by (subst Prefix_str_value.simps) (simp add: digit_prefix_def)
  moreover have "format_0_4 5 = Inr ''0005''"
    by code_simp
  ultimately have 4: "EventCode_str_value [digit_prefix] digit_event = Some (Inr ''A10005'')"
    unfolding EventCode_str_value_def by (simp add: 3) (simp add: digit_event_def digit_prefix_def)
  have 5: "parse_error_code ''A10005'' = Inr ([''A''], 10005)" by code_simp
  from 1 2 3 4 5 show ?thesis by blast
qed

section \<open>Properties of the lookup service\<close>


lemma lookup_resolved:
  assumes "parse_error_code (upper c) = Inr (ps, n)"
    and "get_prefix_ids_by_composed_key_query (prefixes_table db) ps = Some (pid # rest)"
    and "pid \<noteq> 0" and "n \<le> int4_max"
  shows "get_error_code_details db c =
     (case remdups (filter (\<lambda>e. prefix_id e = pid \<and> sint (increment e) = n) (event_codes_table db)) of
        [] \<Rightarrow> Some (Inl (HTTPException 404
                 (''EventCode '' @ [apostrophe] @ c @ [apostrophe] @ '' is not found.'')))
      | [event_code] \<Rightarrow>
          Some (EventCodeR_init c
            (if use_generic_message event_code then Some ''Something went wrong.''
             else custom_message event_code)
            (hint event_code) (severity event_code))
      | _ \<Rightarrow> Some (Inl MultipleResultsFound))"
  using assms by (simp add: get_error_code_details_def)

lemma sint_le_int4_max: "sint (w :: 32 word) \<le> int4_max"
  using sint_lt[of w] by (simp add: int4_max_def)





lemma lookup_Inr_D:
  assumes "get_error_code_details db c = Some (Inr r)"
  obtains ps n pid rest e where
    "parse_error_code (upper c) = Inr (ps, n)"
    "get_prefix_ids_by_composed_key_query (prefixes_table db) ps = Some (pid # rest)"
    "pid \<noteq> 0" "n \<le> int4_max"
    "remdups (filter (\<lambda>e. prefix_id e = pid \<and> sint (increment e) = n) (event_codes_table db)) = [e]"
    "EventCodeR_init c
       (if use_generic_message e then Some ''Something went wrong.'' else custom_message e)
       (hint e) (severity e) = Inr r"
proof (cases "parse_error_code (upper c)")
  case (Inl err)
  with assms show ?thesis by (simp add: get_error_code_details_def)
next
  case (Inr pr)
  obtain ps n where pr: "pr = (ps, n)" by (cases pr)
  note p = Inr[unfolded pr]
  show ?thesis
  proof (cases "get_prefix_ids_by_composed_key_query (prefixes_table db) ps")
    case None
    with assms p show ?thesis by (simp add: get_error_code_details_def)
  next
    case (Some rows)
    show ?thesis
    proof (cases rows)
      case Nil
      with assms p Some show ?thesis by (simp add: get_error_code_details_def)
    next
      case (Cons pid rest)
      note q = Some[unfolded Cons]
      show ?thesis
      proof (cases "pid = 0")
        case True
        with assms p q show ?thesis by (simp add: get_error_code_details_def)
      next
        case False
        show ?thesis
        proof (cases "int4_max < n")
          case True
          with assms p q False show ?thesis by (simp add: get_error_code_details_def)
        next
          case big: False
          then have b: "n \<le> int4_max" by simp
          note u = lookup_resolved[OF p q False b]
          from assms obtain e where
            "remdups (filter (\<lambda>e. prefix_id e = pid \<and> sint (increment e) = n) (event_codes_table db)) = [e]"
            "EventCodeR_init c
               (if use_generic_message e then Some ''Something went wrong.'' else custom_message e)
               (hint e) (severity e) = Inr r"
            unfolding u by (auto split: list.splits)
          with p q False b show ?thesis by (rule that)
        qed
      qed
    qed
  qed
qed










lemma distinct_singleton: "distinct xs \<Longrightarrow> e \<in> set xs \<Longrightarrow> set xs \<subseteq> {e} \<Longrightarrow> xs = [e]"
proof (cases xs)
  case Nil
  assume "e \<in> set xs"
  with Nil show ?thesis by simp
next
  case (Cons x ys)
  assume d: "distinct xs" and s: "set xs \<subseteq> {e}"
  from s Cons have x: "x = e" by simp
  from d Cons have "x \<notin> set ys" by simp
  moreover from s Cons have "set ys \<subseteq> {e}" by simp
  ultimately have "ys = []" using x by (cases ys) auto
  with Cons x show ?thesis by simp
qed

text \<open>
  Claim C10. When the lookup resolves a prefix and an event code with the resolved prefix
  id and the parsed increment has no custom message and does not use the generic
  message, the lookup neither returns a result nor fails with one of the 404 errors or
  the parse error: the response constructor raises a validation error (or \<open>one()\<close>
  raises when several rows match). A returned result always comes from an event code
  that uses the generic message or has a custom message.
\<close>

theorem lookup_null_message:
  "(parse_error_code (upper c) = Inr (ps, n) \<longrightarrow>
    get_prefix_ids_by_composed_key_query (prefixes_table db) ps = Some (pid # rest) \<longrightarrow>
    pid \<noteq> 0 \<longrightarrow> e \<in> set (event_codes_table db) \<longrightarrow> prefix_id e = pid \<longrightarrow> sint (increment e) = n \<longrightarrow>
    \<not> use_generic_message e \<longrightarrow> custom_message e = None \<longrightarrow>
      (get_error_code_details db c = Some (Inl ValidationError) \<or>
       get_error_code_details db c = Some (Inl MultipleResultsFound)) \<and>
      ((\<forall>e'\<in>set (event_codes_table db). prefix_id e' = pid \<and> sint (increment e') = n \<longrightarrow> e' = e) \<longrightarrow>
         get_error_code_details db c = Some (Inl ValidationError))) \<and>
   (\<forall>r. get_error_code_details db c = Some (Inr r) \<longrightarrow>
      (\<exists>e\<in>set (event_codes_table db). use_generic_message e \<or> custom_message e = Some (details r)))"
proof -
  have A: "\<exists>e\<in>set (event_codes_table db). use_generic_message e \<or> custom_message e = Some (details r)"
    if "get_error_code_details db c = Some (Inr r)" for r
  proof -
    from that obtain ps' n' pid' rest' e' where
      m: "remdups (filter (\<lambda>e. prefix_id e = pid' \<and> sint (increment e) = n') (event_codes_table db)) = [e']"
      and i: "EventCodeR_init c
         (if use_generic_message e' then Some ''Something went wrong.'' else custom_message e')
         (hint e') (severity e') = Inr r"
      by (rule lookup_Inr_D)
    have "e' \<in> set (remdups (filter (\<lambda>e. prefix_id e = pid' \<and> sint (increment e) = n') (event_codes_table db)))"
      unfolding m by simp
    then have mem: "e' \<in> set (event_codes_table db)" by simp
    from i have "use_generic_message e' \<or> custom_message e' = Some (details r)"
      by (auto simp: EventCodeR_init_def split: if_splits option.splits)
    with mem show ?thesis by blast
  qed
  have B: "(get_error_code_details db c = Some (Inl ValidationError) \<or>
       get_error_code_details db c = Some (Inl MultipleResultsFound)) \<and>
      ((\<forall>e'\<in>set (event_codes_table db). prefix_id e' = pid \<and> sint (increment e') = n \<longrightarrow> e' = e) \<longrightarrow>
         get_error_code_details db c = Some (Inl ValidationError))"
    if h: "parse_error_code (upper c) = Inr (ps, n)"
      "get_prefix_ids_by_composed_key_query (prefixes_table db) ps = Some (pid # rest)"
      "pid \<noteq> 0"
      and e: "e \<in> set (event_codes_table db)" "prefix_id e = pid" "sint (increment e) = n"
      and g: "\<not> use_generic_message e" "custom_message e = None"
  proof -
    let ?ms = "remdups (filter (\<lambda>e. prefix_id e = pid \<and> sint (increment e) = n) (event_codes_table db))"
    from e(3) sint_le_int4_max[of "increment e"] have b: "n \<le> int4_max" by simp
    note u = lookup_resolved[OF h b]
    from e have mem: "e \<in> set ?ms" by simp
    have one: "get_error_code_details db c = Some (Inl ValidationError)" if "?ms = [e]"
      unfolding u that using g by (simp add: EventCodeR_init_def)
    have 1: "get_error_code_details db c = Some (Inl ValidationError) \<or>
       get_error_code_details db c = Some (Inl MultipleResultsFound)"
    proof (cases ?ms)
      case Nil
      with mem show ?thesis by simp
    next
      case (Cons x xs)
      show ?thesis
      proof (cases xs)
        case Nil
        with Cons mem have "?ms = [e]" by simp
        then show ?thesis by (simp add: one)
      next
        case (Cons y ys)
        with \<open>?ms = x # xs\<close> show ?thesis unfolding u by simp
      qed
    qed
    have 2: "get_error_code_details db c = Some (Inl ValidationError)"
      if uniq: "\<forall>e'\<in>set (event_codes_table db). prefix_id e' = pid \<and> sint (increment e') = n \<longrightarrow> e' = e"
    proof -
      have "set ?ms \<subseteq> {e}" using uniq by auto
      moreover have "distinct ?ms" by simp
      ultimately have "?ms = [e]" using mem by (simp add: distinct_singleton)
      then show ?thesis by (rule one)
    qed
    from 1 2 show ?thesis by blast
  qed
  show ?thesis
  proof (intro conjI impI allI)
    fix r assume "get_error_code_details db c = Some (Inr r)"
    then show "\<exists>e\<in>set (event_codes_table db). use_generic_message e \<or> custom_message e = Some (details r)"
      by (rule A)
  next
    assume h: "parse_error_code (upper c) = Inr (ps, n)"
      "get_prefix_ids_by_composed_key_query (prefixes_table db) ps = Some (pid # rest)"
      "pid \<noteq> 0" "e \<in> set (event_codes_table db)" "prefix_id e = pid" "sint (increment e) = n"
      "\<not> use_generic_message e" "custom_message e = None"
    from B[OF h] show "get_error_code_details db c = Some (Inl ValidationError) \<or>
       get_error_code_details db c = Some (Inl MultipleResultsFound)" by (rule conjunct1)
    assume "\<forall>e'\<in>set (event_codes_table db). prefix_id e' = pid \<and> sint (increment e') = n \<longrightarrow> e' = e"
    with B[OF h] show "get_error_code_details db c = Some (Inl ValidationError)" by (rule conjunct2[THEN mp])
  qed
qed



text \<open>The event code without a custom message in the example database.\<close>

theorem lookup_null_message_witness:
  "null_message_event \<in> set (event_codes_table tree_db) \<and>
   get_error_code_details tree_db ''A.LOGIN0001'' = Some (Inl ValidationError)"
proof -
  have p: "parse_error_code (upper ''A.LOGIN0001'') = Inr ([''A'', ''LOGIN''], 1)" by code_simp
  have q: "get_prefix_ids_by_composed_key_query (prefixes_table tree_db) [''A'', ''LOGIN''] = Some (2 # [])"
    unfolding tree_db_def by code_simp
  have nz: "(2::int) \<noteq> 0" by simp
  have mem: "null_message_event \<in> set (event_codes_table tree_db)"
    by (simp add: tree_db_def null_message_event_def)
  have f: "prefix_id null_message_event = 2" "sint (increment null_message_event) = 1"
    "\<not> use_generic_message null_message_event" "custom_message null_message_event = None"
    by (simp_all add: null_message_event_def)
  have uniq: "\<forall>e'\<in>set (event_codes_table tree_db).
      prefix_id e' = 2 \<and> sint (increment e') = 1 \<longrightarrow> e' = null_message_event"
    by (simp add: tree_db_def null_message_event_def)
  note t = lookup_null_message[THEN conjunct1, rule_format, OF p q nz mem f]
  from t[THEN conjunct2] uniq
  have "get_error_code_details tree_db ''A.LOGIN0001'' = Some (Inl ValidationError)"
    by (rule mp)
  with mem show ?thesis by (rule conjI)
qed

text \<open>
  Claim C5 on the example database. For the chain \<open>A.MISSING\<close> the query has no row,
  \<open>fetchone()\<close> is \<open>None\<close> and indexing it raises \<open>TypeError\<close> before the guard that
  raises the 404 for a missing prefix is reached. The guard fires only for a matched
  prefix whose id is \<open>0\<close>.
\<close>

theorem lookup_missing_prefix:
  "get_prefix_ids_by_composed_key_query (prefixes_table tree_db) [''A'', ''MISSING''] = Some [] \<and>
   get_error_code_details tree_db ''A.MISSING0001'' = Some (Inl TypeError) \<and>
   get_prefix_ids_by_composed_key_query (prefixes_table tree_db) [''Z''] = Some [0] \<and>
   get_error_code_details tree_db ''Z0001'' =
     Some (Inl (HTTPException 404 (''Prefix '' @ [apostrophe] @ ''Z'' @ [apostrophe] @ '' is not found.'')))"
proof -
  have p1: "parse_error_code (upper ''A.MISSING0001'') = Inr ([''A'', ''MISSING''], 1)" by code_simp
  have q1: "get_prefix_ids_by_composed_key_query (prefixes_table tree_db) [''A'', ''MISSING''] = Some []"
    unfolding tree_db_def by code_simp
  have p2: "parse_error_code (upper ''Z0001'') = Inr ([''Z''], 1)" by code_simp
  have q2: "get_prefix_ids_by_composed_key_query (prefixes_table tree_db) [''Z''] = Some [0]"
    unfolding tree_db_def by code_simp
  have r1: "get_error_code_details tree_db ''A.MISSING0001'' = Some (Inl TypeError)"
    by (simp add: get_error_code_details_def p1 q1)
  have r2: "get_error_code_details tree_db ''Z0001'' =
     Some (Inl (HTTPException 404 (''Prefix '' @ [apostrophe] @ ''Z'' @ [apostrophe] @ '' is not found.'')))"
    by (simp add: get_error_code_details_def p2 q2)
  from q1 r1 q2 r2 show ?thesis by blast
qed

section \<open>Properties of the increment allocator\<close>

lemma coalesce_sql_max:
  "coalesce (sql_max xs) 0 = (if set xs = {} then 0 else Max (set xs))"
  by (cases xs) (simp_all add: sql_max_def coalesce_def Max.set_eq_fold del: set_simps)

lemma allocator_max:
  "coalesce (sql_max (map (\<lambda>e. sint (increment e)) (filter (\<lambda>e. prefix_id e = p) t))) 0 =
   greatest_increment t p"
proof -
  define xs where "xs = map (\<lambda>e. sint (increment e)) (filter (\<lambda>e. prefix_id e = p) t)"
  define S where "S = (\<lambda>e. sint (increment e)) ` {e \<in> set t. prefix_id e = p}"
  have "set xs = S"
    unfolding xs_def S_def by auto
  then have "coalesce (sql_max xs) 0 = (if S = {} then 0 else Max S)"
    by (simp only: coalesce_sql_max)
  then show ?thesis
    unfolding greatest_increment_def Let_def xs_def[symmetric] S_def[symmetric] .
qed

lemma greatest_increment_range:
  "- 2147483648 \<le> greatest_increment t p" "greatest_increment t p \<le> int4_max"
proof -
  define S where "S = (\<lambda>e. sint (increment e)) ` {e \<in> set t. prefix_id e = p}"
  have fin: "finite S" unfolding S_def by simp
  have g: "greatest_increment t p = (if S = {} then 0 else Max S)"
    unfolding greatest_increment_def Let_def S_def ..
  have r: "- 2147483648 \<le> x \<and> x \<le> int4_max" if "x \<in> S" for x
  proof -
    from that obtain e :: EventCode where "x = sint (increment e)" unfolding S_def by auto
    with sint_ge[of "increment e"] sint_lt[of "increment e"] show ?thesis
      by (simp add: int4_max_def)
  qed
  show "- 2147483648 \<le> greatest_increment t p"
  proof (cases "S = {}")
    case True
    with g show ?thesis by simp
  next
    case False
    with fin have "Max S \<in> S" by (rule Max_in)
    with r g False show ?thesis by simp
  qed
  show "greatest_increment t p \<le> int4_max"
  proof (cases "S = {}")
    case True
    with g show ?thesis by (simp add: int4_max_def)
  next
    case False
    with fin have "Max S \<in> S" by (rule Max_in)
    with r g False show ?thesis by simp
  qed
qed

lemma sint_word_of_int4:
  "- 2147483648 \<le> k \<Longrightarrow> k \<le> int4_max \<Longrightarrow> sint (word_of_int k :: 32 word) = k"
  by (simp add: signed_of_int signed_take_bit_int_eq_self int4_max_def)

lemma read_step_eq:
  "read_step db new =
     (if int4_max \<le> greatest_increment (event_codes_table db) (prefix_id new) then Inl DBAPIError
      else Inr (new\<lparr>increment :=
                  word_of_int (1 + greatest_increment (event_codes_table db) (prefix_id new))\<rparr>))"
  unfolding read_step_def auto_event_code_increment_function_def Let_def allocator_max
  by (simp add: add.commute)

lemma greatest_increment_snoc_other:
  "prefix_id x \<noteq> p \<Longrightarrow> greatest_increment (t @ [x]) p = greatest_increment t p"
proof -
  assume "prefix_id x \<noteq> p"
  then have "{e \<in> set (t @ [x]). prefix_id e = p} = {e \<in> set t. prefix_id e = p}" by auto
  then show ?thesis unfolding greatest_increment_def by simp
qed

lemma greatest_increment_snoc_same:
  assumes "prefix_id x = p" and "sint (increment x) = greatest_increment t p + 1"
  shows "greatest_increment (t @ [x]) p = greatest_increment t p + 1"
proof -
  define S where "S = (\<lambda>e. sint (increment e)) ` {e \<in> set t. prefix_id e = p}"
  have fin: "finite S" unfolding S_def by simp
  have g: "greatest_increment t p = (if S = {} then 0 else Max S)"
    unfolding greatest_increment_def Let_def S_def ..
  have "{e \<in> set (t @ [x]). prefix_id e = p} = insert x {e \<in> set t. prefix_id e = p}"
    using assms(1) by auto
  then have S': "(\<lambda>e. sint (increment e)) ` {e \<in> set (t @ [x]). prefix_id e = p} =
      insert (sint (increment x)) S"
    unfolding S_def by simp
  have g': "greatest_increment (t @ [x]) p = Max (insert (sint (increment x)) S)"
    unfolding greatest_increment_def Let_def S' by simp
  have "Max (insert (sint (increment x)) S) = sint (increment x)"
  proof (cases "S = {}")
    case True
    then show ?thesis by simp
  next
    case False
    with fin have "Max (insert (sint (increment x)) S) = max (sint (increment x)) (Max S)"
      by (rule Max_insert)
    moreover from assms(2) g False have "Max S \<le> sint (increment x)" by (simp del: Max_le_iff)
    ultimately show ?thesis by (simp only: max_absorb1)
  qed
  with g' assms(2) show ?thesis by simp
qed

lemma greatest_increment_code:
  "greatest_increment t p =
   coalesce (sql_max (map (\<lambda>e. sint (increment e)) (filter (\<lambda>e. prefix_id e = p) t))) 0"
  by (simp only: allocator_max)

lemma greatest_increment_empty:
  "\<forall>e\<in>set t. prefix_id e \<noteq> p \<Longrightarrow> greatest_increment t p = 0"
proof -
  assume "\<forall>e\<in>set t. prefix_id e \<noteq> p"
  then have "{e \<in> set t. prefix_id e = p} = {}" by auto
  then show ?thesis unfolding greatest_increment_def by simp
qed

lemma insert_event_code_eq:
  "insert_event_code db new =
     (if int4_max \<le> greatest_increment (event_codes_table db) (prefix_id new) then Inl DBAPIError
      else if e_id new \<in> e_id ` set (event_codes_table db) then Inl IntegrityError
      else if prefix_id new \<notin> prefix_ids db then Inl IntegrityError
      else Inr (db\<lparr>event_codes_table := event_codes_table db @
             [new\<lparr>increment :=
                word_of_int (1 + greatest_increment (event_codes_table db) (prefix_id new))\<rparr>]\<rparr>))"
  by (simp add: insert_event_code_def read_step_eq write_step_def)

lemma next_increment_sint:
  assumes "greatest_increment t p < int4_max"
  shows "sint (word_of_int (1 + greatest_increment t p) :: 32 word) = 1 + greatest_increment t p"
proof (rule sint_word_of_int4)
  from greatest_increment_range(1)[of t p] show "- 2147483648 \<le> 1 + greatest_increment t p"
    by simp
  from assms show "1 + greatest_increment t p \<le> int4_max" by simp
qed

lemma number_from_e_id: "map e_id (number_from k news) = map e_id news"
  by (induction news arbitrary: k) simp_all

lemma number_from_prefix_id: "map prefix_id (number_from k news) = map prefix_id news"
  by (induction news arbitrary: k) simp_all

lemma number_from_increments:
  "- 2147483648 \<le> k \<Longrightarrow> k + int (length news) \<le> int4_max + 1 \<Longrightarrow>
   map (\<lambda>e. sint (increment e)) (number_from k news) = [k..k + int (length news) - 1]"
proof (induction news arbitrary: k)
  case Nil
  then show ?case by simp
next
  case (Cons n ns)
  from Cons.prems have k: "sint (word_of_int k :: 32 word) = k"
    by (intro sint_word_of_int4) simp_all
  from Cons.prems have "map (\<lambda>e. sint (increment e)) (number_from (k + 1) ns) =
      [k + 1..k + 1 + int (length ns) - 1]"
    by (intro Cons.IH) simp_all
  moreover have "[k..k + int (length (n # ns)) - 1] = k # [k + 1..k + 1 + int (length ns) - 1]"
    by (subst upto_rec1) simp_all
  ultimately show ?case using k by simp
qed

text \<open>
  Insertions one after another under one prefix append the new rows with the
  consecutive increments that follow the greatest one.
\<close>

lemma insert_all_sequential:
  assumes "distinct (map e_id news)"
    and "\<forall>n\<in>set news. e_id n \<notin> e_id ` set (event_codes_table db) \<and> prefix_id n = p"
    and "p \<in> prefix_ids db"
    and "greatest_increment (event_codes_table db) p + int (length news) \<le> int4_max"
  shows "insert_all db news =
     Inr (db\<lparr>event_codes_table := event_codes_table db @
            number_from (greatest_increment (event_codes_table db) p + 1) news\<rparr>)"
  using assms
proof (induction news arbitrary: db)
  case Nil
  then show ?case by simp
next
  case (Cons n ns)
  let ?t = "event_codes_table db"
  let ?g = "greatest_increment ?t p"
  let ?n = "n\<lparr>increment := word_of_int (1 + ?g)\<rparr>"
  let ?db = "db\<lparr>event_codes_table := ?t @ [?n]\<rparr>"
  from Cons.prems(2) have n: "e_id n \<notin> e_id ` set ?t" "prefix_id n = p" by simp_all
  from Cons.prems(4) have g: "?g < int4_max" by simp
  with n Cons.prems(3) have i: "insert_event_code db n = Inr ?db"
    by (simp add: insert_event_code_eq)
  have "increment ?n = word_of_int (1 + ?g)" by (simp del: of_int_add)
  then have "sint (increment ?n) = sint (word_of_int (1 + ?g) :: 32 word)" by (rule arg_cong)
  also from g have "\<dots> = 1 + ?g" by (rule next_increment_sint)
  finally have s: "sint (increment ?n) = ?g + 1" by (simp only: add.commute)
  from n(2) have "prefix_id ?n = p" by simp
  from this s have g': "greatest_increment (?t @ [?n]) p = ?g + 1"
    by (rule greatest_increment_snoc_same)
  have "insert_all ?db ns =
     Inr (?db\<lparr>event_codes_table := event_codes_table ?db @
            number_from (greatest_increment (event_codes_table ?db) p + 1) ns\<rparr>)"
  proof (rule Cons.IH)
    from Cons.prems(1) show "distinct (map e_id ns)" by simp
    from Cons.prems(1,2)
    show "\<forall>m\<in>set ns. e_id m \<notin> e_id ` set (event_codes_table ?db) \<and> prefix_id m = p"
      by (auto simp: image_iff)
    from Cons.prems(3) show "p \<in> prefix_ids ?db" by (simp add: prefix_ids_def)
    from Cons.prems(4) g'
    show "greatest_increment (event_codes_table ?db) p + int (length ns) \<le> int4_max"
      by simp
  qed
  with i g' show ?case by (simp add: add.commute)
qed


text \<open>
  Claim C2, as amended. An insertion whose id is new and whose prefix exists, under a
  prefix whose greatest increment is below \<open>2147483647\<close>, is accepted: it appends the new
  row with the increment one above the greatest increment of the rows with the same
  prefix id, or \<open>1\<close> when there is none, and changes nothing else. At the greatest
  increment \<open>2147483647\<close> the insertion fails and no increment is assigned. Three creations
  in a row under an existing prefix without event codes are accepted with the increments
  \<open>1\<close>, \<open>2\<close> and \<open>3\<close>. A row under one prefix, whatever its increment, does not change
  what the allocator computes for a row under another prefix.
\<close>

theorem allocator_next_increment:
  "(e_id new \<notin> e_id ` set (event_codes_table db) \<longrightarrow> prefix_id new \<in> prefix_ids db \<longrightarrow>
    greatest_increment (event_codes_table db) (prefix_id new) < int4_max \<longrightarrow>
      insert_event_code db new =
        Inr (db\<lparr>event_codes_table := event_codes_table db @
               [new\<lparr>increment :=
                  word_of_int (1 + greatest_increment (event_codes_table db) (prefix_id new))\<rparr>]\<rparr>) \<and>
      sint (word_of_int (1 + greatest_increment (event_codes_table db) (prefix_id new)) :: 32 word) =
        1 + greatest_increment (event_codes_table db) (prefix_id new)) \<and>
   (int4_max \<le> greatest_increment (event_codes_table db) (prefix_id new) \<longrightarrow>
      insert_event_code db new = Inl DBAPIError) \<and>
   ((\<forall>e\<in>set (event_codes_table db). prefix_id e \<noteq> p) \<longrightarrow> p \<in> prefix_ids db \<longrightarrow>
    prefix_id a = p \<longrightarrow> prefix_id b = p \<longrightarrow> prefix_id c = p \<longrightarrow>
    distinct [e_id a, e_id b, e_id c] \<longrightarrow>
    (\<forall>n\<in>{a, b, c}. e_id n \<notin> e_id ` set (event_codes_table db)) \<longrightarrow>
      insert_all db [a, b, c] =
        Inr (db\<lparr>event_codes_table := event_codes_table db @
               [a\<lparr>increment := 1\<rparr>, b\<lparr>increment := 2\<rparr>, c\<lparr>increment := 3\<rparr>]\<rparr>)) \<and>
   (prefix_id x \<noteq> prefix_id y \<longrightarrow>
      read_step (db\<lparr>event_codes_table := event_codes_table db @ [x]\<rparr>) y = read_step db y)"
proof (intro conjI impI)
  assume "e_id new \<notin> e_id ` set (event_codes_table db)" "prefix_id new \<in> prefix_ids db"
    "greatest_increment (event_codes_table db) (prefix_id new) < int4_max"
  then show "insert_event_code db new =
        Inr (db\<lparr>event_codes_table := event_codes_table db @
               [new\<lparr>increment :=
                  word_of_int (1 + greatest_increment (event_codes_table db) (prefix_id new))\<rparr>]\<rparr>)"
    by (simp add: insert_event_code_eq del: of_int_add)
next
  assume "greatest_increment (event_codes_table db) (prefix_id new) < int4_max"
  then show "sint (word_of_int (1 + greatest_increment (event_codes_table db) (prefix_id new)) :: 32 word) =
        1 + greatest_increment (event_codes_table db) (prefix_id new)"
    by (rule next_increment_sint)
next
  assume "int4_max \<le> greatest_increment (event_codes_table db) (prefix_id new)"
  then show "insert_event_code db new = Inl DBAPIError"
    by (simp only: insert_event_code_eq if_True)
next
  assume e: "\<forall>e\<in>set (event_codes_table db). prefix_id e \<noteq> p" and p: "p \<in> prefix_ids db"
    and abc: "prefix_id a = p" "prefix_id b = p" "prefix_id c = p"
    and d: "distinct [e_id a, e_id b, e_id c]"
    and f: "\<forall>n\<in>{a, b, c}. e_id n \<notin> e_id ` set (event_codes_table db)"
  from e have g: "greatest_increment (event_codes_table db) p = 0"
    by (rule greatest_increment_empty)
  have "insert_all db [a, b, c] =
     Inr (db\<lparr>event_codes_table := event_codes_table db @
            number_from (greatest_increment (event_codes_table db) p + 1) [a, b, c]\<rparr>)"
  proof (rule insert_all_sequential)
    from d show "distinct (map e_id [a, b, c])" by simp
    from f abc
    show "\<forall>n\<in>set [a, b, c]. e_id n \<notin> e_id ` set (event_codes_table db) \<and> prefix_id n = p"
      by simp
    from p show "p \<in> prefix_ids db" .
    from g show "greatest_increment (event_codes_table db) p + int (length [a, b, c]) \<le> int4_max"
      by (simp add: int4_max_def)
  qed
  then show "insert_all db [a, b, c] =
        Inr (db\<lparr>event_codes_table := event_codes_table db @
               [a\<lparr>increment := 1\<rparr>, b\<lparr>increment := 2\<rparr>, c\<lparr>increment := 3\<rparr>]\<rparr>)"
    unfolding g by simp
next
  assume "prefix_id x \<noteq> prefix_id y"
  then show "read_step (db\<lparr>event_codes_table := event_codes_table db @ [x]\<rparr>) y = read_step db y"
    by (simp add: read_step_def auto_event_code_increment_function_def)
qed

lemma tree_db_prefix_ids: "prefix_ids tree_db = {1, 2, 3, 0}"
  by (simp add: prefix_ids_def tree_db_def)

lemma tree_db_greatest_increment:
  "greatest_increment (event_codes_table tree_db) 1 = 5"
  "greatest_increment (event_codes_table tree_db) 2 = 1"
  "greatest_increment (event_codes_table tree_db) 3 = 0"
  by (simp_all add: greatest_increment_code tree_db_def sql_max_def coalesce_def)

text \<open>
  In the example database: a creation under \<open>LOGIN\<close>, whose greatest increment is \<open>1\<close>,
  three creations under \<open>OAUTH\<close>, which has no event code, and the allocator on a row
  under \<open>LOGIN\<close> after a creation under \<open>OAUTH\<close>.
\<close>

theorem allocator_next_increment_witness:
  "insert_event_code tree_db (new_event_code 20 2) =
     Inr (tree_db\<lparr>event_codes_table :=
            event_codes_table tree_db @ [(new_event_code 20 2)\<lparr>increment := 2\<rparr>]\<rparr>) \<and>
   insert_all tree_db [new_event_code 20 3, new_event_code 21 3, new_event_code 22 3] =
     Inr created_3 \<and>
   read_step created_1 (new_event_code 21 2) = Inr ((new_event_code 21 2)\<lparr>increment := 2\<rparr>)"
proof -
  have "e_id (new_event_code 20 2) \<notin> e_id ` set (event_codes_table tree_db)"
    by (simp add: new_event_code_def tree_db_def)
  moreover have "prefix_id (new_event_code 20 2) \<in> prefix_ids tree_db"
    by (simp add: new_event_code_def tree_db_prefix_ids)
  moreover have g: "greatest_increment (event_codes_table tree_db) (prefix_id (new_event_code 20 2)) = 1"
    by (simp add: new_event_code_def tree_db_greatest_increment)
  then have "greatest_increment (event_codes_table tree_db) (prefix_id (new_event_code 20 2)) < int4_max"
    by (simp add: int4_max_def)
  ultimately have "insert_event_code tree_db (new_event_code 20 2) =
      Inr (tree_db\<lparr>event_codes_table := event_codes_table tree_db @
        [(new_event_code 20 2)\<lparr>increment :=
           word_of_int (1 + greatest_increment (event_codes_table tree_db)
                              (prefix_id (new_event_code 20 2)))\<rparr>]\<rparr>)"
    using allocator_next_increment[of "new_event_code 20 2" tree_db] by blast
  then have one: "insert_event_code tree_db (new_event_code 20 2) =
     Inr (tree_db\<lparr>event_codes_table :=
            event_codes_table tree_db @ [(new_event_code 20 2)\<lparr>increment := 2\<rparr>]\<rparr>)"
    unfolding g by simp
  have "\<forall>e\<in>set (event_codes_table tree_db). prefix_id e \<noteq> 3"
    by (simp add: tree_db_def)
  moreover have "3 \<in> prefix_ids tree_db"
    by (simp add: tree_db_prefix_ids)
  moreover have "prefix_id (new_event_code 20 3) = 3" "prefix_id (new_event_code 21 3) = 3"
    "prefix_id (new_event_code 22 3) = 3"
    by (simp_all add: new_event_code_def)
  moreover have "distinct [e_id (new_event_code 20 3), e_id (new_event_code 21 3),
      e_id (new_event_code 22 3)]"
    by (simp add: new_event_code_def)
  moreover have "\<forall>n\<in>{new_event_code 20 3, new_event_code 21 3, new_event_code 22 3}.
      e_id n \<notin> e_id ` set (event_codes_table tree_db)"
    by (simp add: new_event_code_def tree_db_def)
  ultimately have "insert_all tree_db [new_event_code 20 3, new_event_code 21 3, new_event_code 22 3] =
      Inr (tree_db\<lparr>event_codes_table := event_codes_table tree_db @
             [(new_event_code 20 3)\<lparr>increment := 1\<rparr>, (new_event_code 21 3)\<lparr>increment := 2\<rparr>,
              (new_event_code 22 3)\<lparr>increment := 3\<rparr>]\<rparr>)"
    using allocator_next_increment[of _ tree_db 3 "new_event_code 20 3" "new_event_code 21 3"
        "new_event_code 22 3"]
    by blast
  then have three: "insert_all tree_db [new_event_code 20 3, new_event_code 21 3, new_event_code 22 3] =
     Inr created_3"
    by (simp add: created_3_def created_2_def created_1_def)
  have "prefix_id ((new_event_code 20 3)\<lparr>increment := 1\<rparr>) \<noteq> prefix_id (new_event_code 21 2)"
    by (simp add: new_event_code_def)
  then have "read_step (tree_db\<lparr>event_codes_table :=
        event_codes_table tree_db @ [(new_event_code 20 3)\<lparr>increment := 1\<rparr>]\<rparr>) (new_event_code 21 2) =
      read_step tree_db (new_event_code 21 2)"
    using allocator_next_increment[of _ tree_db _ _ _ _ "(new_event_code 20 3)\<lparr>increment := 1\<rparr>"
        "new_event_code 21 2"]
    by blast
  moreover have "read_step tree_db (new_event_code 21 2) =
      Inr ((new_event_code 21 2)\<lparr>increment := 2\<rparr>)"
    by (simp add: read_step_eq new_event_code_def tree_db_greatest_increment int4_max_def)
  ultimately have other: "read_step created_1 (new_event_code 21 2) =
      Inr ((new_event_code 21 2)\<lparr>increment := 2\<rparr>)"
    by (simp add: created_1_def)
  from one three other show ?thesis by blast
qed

text \<open>
  The claim C2 as it is written fails at the greatest 32-bit increment: the prefix \<open>3\<close>
  exists, the id \<open>31\<close> is new, the greatest increment under the prefix is \<open>2147483647\<close>, and
  the insertion is refused instead of getting the increment \<open>2147483648\<close>.
\<close>

theorem allocator_int4_overflow:
  "3 \<in> prefix_ids full_db \<and>
   31 \<notin> set (map e_id (event_codes_table full_db)) \<and>
   greatest_increment (event_codes_table full_db) 3 = 2147483647 \<and>
   read_step full_db (new_event_code 31 3) = Inl DBAPIError \<and>
   insert_event_code full_db (new_event_code 31 3) = Inl DBAPIError"
proof -
  have g: "greatest_increment (event_codes_table full_db) 3 = 2147483647"
    by (simp add: greatest_increment_code full_db_def tree_db_def new_event_code_def
        sql_max_def coalesce_def)
  have "3 \<in> prefix_ids full_db"
    by (simp add: prefix_ids_def full_db_def tree_db_def)
  moreover have "31 \<notin> set (map e_id (event_codes_table full_db))"
    by (simp add: full_db_def tree_db_def new_event_code_def)
  moreover have "read_step full_db (new_event_code 31 3) = Inl DBAPIError"
    by (simp add: read_step_eq new_event_code_def g int4_max_def)
  moreover have "insert_event_code full_db (new_event_code 31 3) = Inl DBAPIError"
    by (simp add: insert_event_code_eq new_event_code_def g int4_max_def)
  ultimately show ?thesis using g by blast
qed


text \<open>
  Claim C6, as amended. Creations under one prefix that run one after another, each
  read after the write before it, all succeed and get distinct increments, the
  consecutive ones that follow the greatest increment under the prefix: for new rows
  with distinct ids that are not in the table, under an existing prefix whose greatest
  increment leaves room for them below \<open>2147483647\<close>.
\<close>

theorem sequential_creations_distinct:
  assumes "distinct (map e_id news)"
    and "\<forall>n\<in>set news. e_id n \<notin> e_id ` set (event_codes_table db) \<and> prefix_id n = p"
    and "p \<in> prefix_ids db"
    and "greatest_increment (event_codes_table db) p + int (length news) \<le> int4_max"
  shows "insert_all db news =
           Inr (db\<lparr>event_codes_table := event_codes_table db @
                  number_from (greatest_increment (event_codes_table db) p + 1) news\<rparr>) \<and>
         map e_id (number_from (greatest_increment (event_codes_table db) p + 1) news) =
           map e_id news \<and>
         map (\<lambda>e. sint (increment e))
             (number_from (greatest_increment (event_codes_table db) p + 1) news) =
           [greatest_increment (event_codes_table db) p + 1..
            greatest_increment (event_codes_table db) p + int (length news)] \<and>
         distinct (map (\<lambda>e. sint (increment e))
                     (number_from (greatest_increment (event_codes_table db) p + 1) news))"
proof -
  let ?g = "greatest_increment (event_codes_table db) p"
  have "- 2147483648 \<le> ?g + 1"
    using greatest_increment_range(1)[of "event_codes_table db" p] by simp
  moreover from assms(4) have "?g + 1 + int (length news) \<le> int4_max + 1" by simp
  ultimately have "map (\<lambda>e. sint (increment e)) (number_from (?g + 1) news) =
      [?g + 1..?g + 1 + int (length news) - 1]"
    by (rule number_from_increments)
  then have m: "map (\<lambda>e. sint (increment e)) (number_from (?g + 1) news) =
      [?g + 1..?g + int (length news)]"
    by (simp add: algebra_simps)
  have "distinct [?g + 1..?g + int (length news)]" by (rule distinct_upto)
  with m have "distinct (map (\<lambda>e. sint (increment e)) (number_from (?g + 1) news))"
    by (simp only:)
  with m insert_all_sequential[OF assms] number_from_e_id[of "?g + 1" news]
  show ?thesis by (simp only: simp_thms)
qed

text \<open>Two creations in a row under the prefix \<open>A\<close> of the example database.\<close>

theorem sequential_creations_distinct_witness:
  "insert_all tree_db [new_event_code 20 1, new_event_code 21 1] =
     Inr (tree_db\<lparr>event_codes_table := event_codes_table tree_db @
            [(new_event_code 20 1)\<lparr>increment := 6\<rparr>, (new_event_code 21 1)\<lparr>increment := 7\<rparr>]\<rparr>) \<and>
   map (\<lambda>e. sint (increment e))
     [(new_event_code 20 1)\<lparr>increment := 6\<rparr>, (new_event_code 21 1)\<lparr>increment := 7\<rparr>] = [6, 7]"
proof -
  have "distinct (map e_id [new_event_code 20 1, new_event_code 21 1])"
    by (simp add: new_event_code_def)
  moreover have "\<forall>n\<in>set [new_event_code 20 1, new_event_code 21 1].
      e_id n \<notin> e_id ` set (event_codes_table tree_db) \<and> prefix_id n = 1"
    by (simp add: new_event_code_def tree_db_def)
  moreover have "1 \<in> prefix_ids tree_db"
    by (simp add: tree_db_prefix_ids)
  moreover have "greatest_increment (event_codes_table tree_db) 1 +
      int (length [new_event_code 20 1, new_event_code 21 1]) \<le> int4_max"
    by (simp add: tree_db_greatest_increment int4_max_def)
  ultimately have "insert_all tree_db [new_event_code 20 1, new_event_code 21 1] =
           Inr (tree_db\<lparr>event_codes_table := event_codes_table tree_db @
                  number_from (greatest_increment (event_codes_table tree_db) 1 + 1)
                    [new_event_code 20 1, new_event_code 21 1]\<rparr>) \<and>
         map (\<lambda>e. sint (increment e))
             (number_from (greatest_increment (event_codes_table tree_db) 1 + 1)
                [new_event_code 20 1, new_event_code 21 1]) =
           [greatest_increment (event_codes_table tree_db) 1 + 1..
            greatest_increment (event_codes_table tree_db) 1 +
              int (length [new_event_code 20 1, new_event_code 21 1])]"
    using sequential_creations_distinct[of "[new_event_code 20 1, new_event_code 21 1]" tree_db 1]
    by blast
  moreover have "[6..7] = [6, 7 :: int]"
    by (simp add: upto_rec1)
  ultimately show ?thesis
    by (simp add: tree_db_greatest_increment)
qed

text \<open>
  The claim C6 as it is written fails. Two creations under the prefix \<open>OAUTH\<close> of the
  example database, with the steps in the order read, read, write, write: both reads see
  no event code under the prefix and both rows get the increment \<open>1\<close>; both writes are
  accepted, and the table holds the key \<open>(3, 1)\<close> twice.
\<close>

theorem interleaved_creations_same_increment:
  "read_step tree_db (new_event_code 20 3) = Inr ((new_event_code 20 3)\<lparr>increment := 1\<rparr>) \<and>
   read_step tree_db (new_event_code 21 3) = Inr ((new_event_code 21 3)\<lparr>increment := 1\<rparr>) \<and>
   write_step tree_db ((new_event_code 20 3)\<lparr>increment := 1\<rparr>) = Inr created_1 \<and>
   write_step created_1 ((new_event_code 21 3)\<lparr>increment := 1\<rparr>) = Inr raced_2 \<and>
   event_code_keys raced_2 = [(1, 4), (1, 5), (2, 1), (3, 1), (3, 1)]"
proof -
  have r: "read_step tree_db (new_event_code 20 3) = Inr ((new_event_code 20 3)\<lparr>increment := 1\<rparr>)"
    "read_step tree_db (new_event_code 21 3) = Inr ((new_event_code 21 3)\<lparr>increment := 1\<rparr>)"
    by (simp_all add: read_step_eq new_event_code_def tree_db_greatest_increment int4_max_def)
  have w1: "write_step tree_db ((new_event_code 20 3)\<lparr>increment := 1\<rparr>) = Inr created_1"
    by (simp add: write_step_def tree_db_prefix_ids created_1_def new_event_code_def)
      (simp add: tree_db_def)
  have "prefix_ids created_1 = prefix_ids tree_db"
    by (simp add: prefix_ids_def created_1_def)
  then have w2: "write_step created_1 ((new_event_code 21 3)\<lparr>increment := 1\<rparr>) = Inr raced_2"
    by (simp add: write_step_def tree_db_prefix_ids raced_2_def new_event_code_def)
      (simp add: created_1_def tree_db_def new_event_code_def)
  have k: "event_code_keys raced_2 = [(1, 4), (1, 5), (2, 1), (3, 1), (3, 1)]"
    by (simp add: event_code_keys_def raced_2_def created_1_def tree_db_def new_event_code_def)
  from r w1 w2 k show ?thesis by blast
qed

section \<open>Properties of deletion and of the foreign keys\<close>

lemma prefix_ids_filter:
  "prefix_ids \<lparr>prefixes_table = filter (\<lambda>r. p_id r \<noteq> i) ps, event_codes_table = es\<rparr> =
   p_id ` set ps - {i}"
  by (auto simp: prefix_ids_def)

lemma delete_cascade_subset:
  "set (prefixes_table (delete_cascade ws db)) \<subseteq> set (prefixes_table db) \<and>
   set (event_codes_table (delete_cascade ws db)) \<subseteq> set (event_codes_table db)"
proof (induction ws db rule: delete_cascade.induct)
  case (1 db)
  show ?case by simp
next
  case (2 i todo db)
  show ?case
  proof (cases "i \<in> prefix_ids db")
    case True
    with 2(1) show ?thesis by (simp del: delete_cascade.simps add: delete_cascade.simps(2)[of i todo db]) blast
  next
    case False
    with 2(2) show ?thesis by simp
  qed
qed

lemma delete_cascade_ids_subset: "prefix_ids (delete_cascade ws db) \<subseteq> prefix_ids db"
  using delete_cascade_subset[of ws db] unfolding prefix_ids_def by blast

lemma delete_cascade_no_orphans: "no_orphans db \<Longrightarrow> no_orphans (delete_cascade ws db)"
proof (induction ws db rule: delete_cascade.induct)
  case (1 db)
  then show ?case by simp
next
  case (2 i todo db)
  show ?case
  proof (cases "i \<in> prefix_ids db")
    case True
    let ?db' = "\<lparr>prefixes_table = filter (\<lambda>r. p_id r \<noteq> i) (prefixes_table db),
           event_codes_table = filter (\<lambda>e. prefix_id e \<noteq> i) (event_codes_table db)\<rparr>"
    have "no_orphans ?db'"
      using 2(3) unfolding no_orphans_def prefix_ids_filter by (auto simp: prefix_ids_def)
    with 2(1)[OF True] True show ?thesis by simp
  next
    case False
    with 2(2,3) show ?thesis by simp
  qed
qed

lemma delete_cascade_primary_key: "primary_key db \<Longrightarrow> primary_key (delete_cascade ws db)"
proof (induction ws db rule: delete_cascade.induct)
  case (1 db)
  then show ?case by simp
next
  case (2 i todo db)
  show ?case
  proof (cases "i \<in> prefix_ids db")
    case True
    let ?db' = "\<lparr>prefixes_table = filter (\<lambda>r. p_id r \<noteq> i) (prefixes_table db),
           event_codes_table = filter (\<lambda>e. prefix_id e \<noteq> i) (event_codes_table db)\<rparr>"
    have "primary_key ?db'"
      using 2(3) unfolding primary_key_def by (simp add: distinct_map_filter)
    with 2(1)[OF True] True show ?thesis by simp
  next
    case False
    with 2(2,3) show ?thesis by simp
  qed
qed

lemma delete_cascade_removes_todo: "j \<in> set ws \<Longrightarrow> j \<notin> prefix_ids (delete_cascade ws db)"
proof (induction ws db rule: delete_cascade.induct)
  case (1 db)
  then show ?case by simp
next
  case (2 i todo db)
  show ?case
  proof (cases "i \<in> prefix_ids db")
    case True
    let ?db' = "\<lparr>prefixes_table = filter (\<lambda>r. p_id r \<noteq> i) (prefixes_table db),
           event_codes_table = filter (\<lambda>e. prefix_id e \<noteq> i) (event_codes_table db)\<rparr>"
    let ?ws' = "map p_id (filter (\<lambda>r. parent_prefix_id r = Some i \<and> p_id r \<noteq> i) (prefixes_table db)) @ todo"
    have eq: "delete_cascade (i # todo) db = delete_cascade ?ws' ?db'"
      using True by simp
    show ?thesis
    proof (cases "j = i")
      case True
      have "i \<notin> prefix_ids ?db'" unfolding prefix_ids_filter by simp
      with delete_cascade_ids_subset[of ?ws' ?db'] have "i \<notin> prefix_ids (delete_cascade ?ws' ?db')"
        by blast
      with True eq show ?thesis by simp
    next
      case False
      with 2(3) have "j \<in> set ?ws'" by simp
      from 2(1)[OF True this] eq show ?thesis by simp
    qed
  next
    case False
    then have eq: "delete_cascade (i # todo) db = delete_cascade todo db" by simp
    show ?thesis
    proof (cases "j = i")
      case True
      with False delete_cascade_ids_subset[of todo db] eq show ?thesis by auto
    next
      case False
      with 2(3) have "j \<in> set todo" by simp
      from 2(2)[OF \<open>i \<notin> prefix_ids db\<close> this] eq show ?thesis by simp
    qed
  qed
qed


lemma pending_Nil: "pending [] db = parents_exist db"
  by (auto simp: pending_def parents_exist_def)

lemma delete_cascade_parents: "pending ws db \<Longrightarrow> parents_exist (delete_cascade ws db)"
proof (induction ws db rule: delete_cascade.induct)
  case (1 db)
  then show ?case by (simp add: pending_Nil)
next
  case (2 i todo db)
  show ?case
  proof (cases "i \<in> prefix_ids db")
    case True
    let ?db' = "\<lparr>prefixes_table = filter (\<lambda>r. p_id r \<noteq> i) (prefixes_table db),
           event_codes_table = filter (\<lambda>e. prefix_id e \<noteq> i) (event_codes_table db)\<rparr>"
    let ?ws' = "map p_id (filter (\<lambda>r. parent_prefix_id r = Some i \<and> p_id r \<noteq> i) (prefixes_table db)) @ todo"
    have "pending ?ws' ?db'"
      unfolding pending_def prefix_ids_filter
    proof (intro ballI allI impI)
      fix r q
      assume r: "r \<in> set (prefixes_table ?db')" and q: "parent_prefix_id r = Some q"
      from r have rt: "r \<in> set (prefixes_table db)" and ri: "p_id r \<noteq> i" by auto
      from 2(3) rt q have "q \<in> prefix_ids db \<or> p_id r \<in> set (i # todo)"
        unfolding pending_def by blast
      then show "q \<in> p_id ` set (prefixes_table db) - {i} \<or> p_id r \<in> set ?ws'"
      proof
        assume qd: "q \<in> prefix_ids db"
        show ?thesis
        proof (cases "q = i")
          case True
          with rt ri q have "p_id r \<in> set ?ws'" by auto
          then show ?thesis ..
        next
          case False
          with qd show ?thesis by (simp add: prefix_ids_def)
        qed
      next
        assume "p_id r \<in> set (i # todo)"
        with ri show ?thesis by simp
      qed
    qed
    from 2(1)[OF True this] True show ?thesis by simp
  next
    case False
    have "pending todo db"
      unfolding pending_def
    proof (intro ballI allI impI)
      fix r q
      assume r: "r \<in> set (prefixes_table db)" and q: "parent_prefix_id r = Some q"
      with 2(3) have "q \<in> prefix_ids db \<or> p_id r \<in> set (i # todo)"
        unfolding pending_def by blast
      moreover from r False have "p_id r \<noteq> i" by (auto simp: prefix_ids_def)
      ultimately show "q \<in> prefix_ids db \<or> p_id r \<in> set todo" by auto
    qed
    from 2(2)[OF False this] False show ?thesis by simp
  qed
qed

lemma delete_prefix_parents: "parents_exist db \<Longrightarrow> parents_exist (delete_prefix db i)"
proof -
  assume "parents_exist db"
  then have "pending [i] db"
    unfolding pending_def parents_exist_def by blast
  then show ?thesis
    unfolding delete_prefix_def by (rule delete_cascade_parents)
qed

lemma delete_prefix_invariants:
  assumes "primary_key db" "parents_exist db" "no_orphans db"
  shows "primary_key (delete_prefix db i)" "parents_exist (delete_prefix db i)"
    "no_orphans (delete_prefix db i)"
proof -
  show "primary_key (delete_prefix db i)"
    unfolding delete_prefix_def using assms(1) by (rule delete_cascade_primary_key)
  have "pending [i] db"
    using assms(2) unfolding pending_def parents_exist_def by blast
  then show "parents_exist (delete_prefix db i)"
    unfolding delete_prefix_def by (rule delete_cascade_parents)
  show "no_orphans (delete_prefix db i)"
    unfolding delete_prefix_def using assms(3) by (rule delete_cascade_no_orphans)
qed

lemma primary_key_row:
  "primary_key db \<Longrightarrow> r \<in> set (prefixes_table db) \<Longrightarrow> r' \<in> set (prefixes_table db) \<Longrightarrow>
   p_id r = p_id r' \<Longrightarrow> r = r'"
  unfolding primary_key_def by (auto simp: distinct_map dest: inj_onD)

lemma delete_prefix_descendants:
  assumes pk: "primary_key db" and pe: "parents_exist db"
    and d: "descends (prefixes_table db) i j"
  shows "j \<notin> prefix_ids (delete_prefix db i)"
  using d
proof (induction rule: descends.induct)
  case self
  show ?case unfolding delete_prefix_def by (rule delete_cascade_removes_todo) simp
next
  case (step q r)
  show ?case
  proof
    assume "p_id r \<in> prefix_ids (delete_prefix db i)"
    then obtain r' where r': "r' \<in> set (prefixes_table (delete_prefix db i))" "p_id r' = p_id r"
      by (auto simp: prefix_ids_def)
    from r'(1) delete_cascade_subset[of "[i]" db] have "r' \<in> set (prefixes_table db)"
      unfolding delete_prefix_def by blast
    with pk step(2) r'(2) have "r' = r" by (auto dest: primary_key_row)
    with r'(1) have "r \<in> set (prefixes_table (delete_prefix db i))" by simp
    with step(3) delete_prefix_parents[OF pe, of i] have "q \<in> prefix_ids (delete_prefix db i)"
      unfolding parents_exist_def by blast
    with step.IH show False by contradiction
  qed
qed

lemma insert_prefix_keys:
  assumes "keys_hold db" and "insert_prefix db new = Inr db'"
  shows "keys_hold db'"
proof -
  from assms(2) have fresh: "p_id new \<notin> prefix_ids db"
    and par: "\<forall>q. parent_prefix_id new = Some q \<longrightarrow> q \<in> prefix_ids db \<or> q = p_id new"
    and db': "db' = db\<lparr>prefixes_table := prefixes_table db @ [new]\<rparr>"
    by (auto simp: insert_prefix_def split: if_splits option.splits)
  have ids: "prefix_ids db' = insert (p_id new) (prefix_ids db)"
    unfolding db' prefix_ids_def by simp
  from assms(1) have k: "primary_key db" "parents_exist db" "no_orphans db"
    unfolding keys_hold_def by simp_all
  have "primary_key db'"
    using k(1) fresh unfolding primary_key_def db' prefix_ids_def by simp
  moreover have "parents_exist db'"
    using k(2) par unfolding parents_exist_def ids unfolding db' by auto
  moreover have "no_orphans db'"
    using k(3) unfolding no_orphans_def ids unfolding db' by simp
  ultimately show ?thesis unfolding keys_hold_def by simp
qed

lemma insert_event_code_keys:
  assumes "keys_hold db" and "insert_event_code db new = Inr db'"
  shows "keys_hold db'"
proof -
  from assms(2) obtain N where N: "read_step db new = Inr N" and w: "write_step db N = Inr db'"
    by (auto simp: insert_event_code_def split: sum.splits)
  from w have fk: "prefix_id N \<in> prefix_ids db"
    and db': "db' = db\<lparr>event_codes_table := event_codes_table db @ [N]\<rparr>"
    by (auto simp: write_step_def split: if_splits)
  have ids: "prefix_ids db' = prefix_ids db" "prefixes_table db' = prefixes_table db"
    unfolding db' prefix_ids_def by simp_all
  from assms(1) have k: "primary_key db" "parents_exist db" "no_orphans db"
    unfolding keys_hold_def by simp_all
  have "primary_key db'" using k(1) unfolding primary_key_def ids .
  moreover have "parents_exist db'" using k(2) unfolding parents_exist_def ids .
  moreover have "no_orphans db'"
    using k(3) fk unfolding no_orphans_def ids unfolding db' by simp
  ultimately show ?thesis unfolding keys_hold_def by simp
qed

lemma update_event_code_keys:
  assumes "keys_hold db" and "update_event_code db i new = Inr db'"
  shows "keys_hold db'"
proof (cases "db' = db")
  case True
  with assms(1) show ?thesis by simp
next
  case False
  with assms(2) have fk: "prefix_id new \<in> prefix_ids db"
    and db': "db' = db\<lparr>event_codes_table := map (\<lambda>e. if e_id e = i then new else e) (event_codes_table db)\<rparr>"
    by (auto simp: update_event_code_def split: if_splits)
  have ids: "prefix_ids db' = prefix_ids db" "prefixes_table db' = prefixes_table db"
    unfolding db' prefix_ids_def by simp_all
  from assms(1) have k: "primary_key db" "parents_exist db" "no_orphans db"
    unfolding keys_hold_def by simp_all
  have "primary_key db'" using k(1) unfolding primary_key_def ids .
  moreover have "parents_exist db'" using k(2) unfolding parents_exist_def ids .
  moreover have "no_orphans db'"
    using k(3) fk unfolding no_orphans_def ids unfolding db' by auto
  ultimately show ?thesis unfolding keys_hold_def by simp
qed

lemma delete_event_code_keys:
  assumes "keys_hold db"
  shows "keys_hold (delete_event_code db i)"
proof -
  have ids: "prefix_ids (delete_event_code db i) = prefix_ids db"
    "prefixes_table (delete_event_code db i) = prefixes_table db"
    unfolding delete_event_code_def prefix_ids_def by simp_all
  from assms(1) have k: "primary_key db" "parents_exist db" "no_orphans db"
    unfolding keys_hold_def by simp_all
  have "primary_key (delete_event_code db i)" using k(1) unfolding primary_key_def ids .
  moreover have "parents_exist (delete_event_code db i)" using k(2) unfolding parents_exist_def ids .
  moreover have "no_orphans (delete_event_code db i)"
    using k(3) unfolding no_orphans_def ids unfolding delete_event_code_def by simp
  ultimately show ?thesis unfolding keys_hold_def by simp
qed

lemma delete_prefix_keys: "keys_hold db \<Longrightarrow> keys_hold (delete_prefix db i)"
  unfolding keys_hold_def using delete_prefix_invariants by blast


lemma update_prefix_keys:
  assumes "keys_hold db" and "update_prefix db i new = Inr db'"
  shows "keys_hold db'"
proof (cases "i \<in> prefix_ids db")
  case False
  with assms show ?thesis by (simp add: update_prefix_def)
next
  case True
  define n where "n = p_id new"
  define f where "f = (\<lambda>x. if x = i then n else x)"
  define cascade :: "Prefix \<Rightarrow> Prefix" where "cascade = (\<lambda>r. if parent_prefix_id r = Some i
                             then r\<lparr>parent_prefix_id := Some n\<rparr> else r)"
  define g where "g = (\<lambda>r. cascade (if p_id r = i then new else r))"
  define ps where "ps = map g (prefixes_table db)"
  define es where "es = map (\<lambda>e. if prefix_id e = i then e\<lparr>prefix_id := n\<rparr> else e)
                   (event_codes_table db)"
  from assms(2) True have fresh: "n = i \<or> n \<notin> prefix_ids db"
    unfolding n_def by (auto simp: update_prefix_def split: if_splits)
  have c1: "(i \<notin> prefix_ids db) = False" using True by simp
  have c2: "(p_id new \<noteq> i \<and> p_id new \<in> prefix_ids db) = False"
    using fresh unfolding n_def by auto
  have eq: "update_prefix db i new =
      (if (\<forall>r\<in>set ps. p_id r = n \<longrightarrow>
                 (case parent_prefix_id r of None \<Rightarrow> True | Some q \<Rightarrow> q \<in> p_id ` set ps))
       then Inr \<lparr>prefixes_table = ps, event_codes_table = es\<rparr> else Inl IntegrityError)"
    unfolding update_prefix_def Let_def c1 c2 if_False ps_def es_def g_def cascade_def n_def
    by (rule refl)
  have chk: "\<forall>r\<in>set ps. p_id r = n \<longrightarrow>
                 (case parent_prefix_id r of None \<Rightarrow> True | Some q \<Rightarrow> q \<in> p_id ` set ps)"
  proof (rule ccontr)
    assume "\<not> ?thesis"
    then have "update_prefix db i new = Inl IntegrityError"
      unfolding eq by (rule if_not_P)
    with assms(2) show False by simp
  qed
  then have "update_prefix db i new = Inr \<lparr>prefixes_table = ps, event_codes_table = es\<rparr>"
    unfolding eq by (rule if_P)
  with assms(2) have db': "db' = \<lparr>prefixes_table = ps, event_codes_table = es\<rparr>"
    by simp
  have pg: "p_id (g r) = f (p_id r)" for r
    unfolding g_def cascade_def f_def n_def by simp
  have ids': "prefix_ids db' = f ` prefix_ids db"
    unfolding db' prefix_ids_def ps_def by (auto simp: pg image_iff)
  from assms(1) have k: "primary_key db" "parents_exist db" "no_orphans db"
    unfolding keys_hold_def by simp_all
  have inj: "inj_on f (prefix_ids db)"
    using fresh unfolding inj_on_def f_def by auto
  have mp: "map p_id ps = map f (map p_id (prefixes_table db))"
    unfolding ps_def by (simp add: pg)
  have "distinct (map f (map p_id (prefixes_table db)))"
    unfolding distinct_map[of f] using k(1) inj by (simp add: primary_key_def prefix_ids_def)
  then have 1: "primary_key db'"
    unfolding primary_key_def db' using mp by simp
  have 2: "parents_exist db'"
    unfolding parents_exist_def
  proof (intro ballI allI impI)
    fix r' q'
    assume r': "r' \<in> set (prefixes_table db')" and q': "parent_prefix_id r' = Some q'"
    from r' obtain r where r: "r \<in> set (prefixes_table db)" and rg: "r' = g r"
      unfolding db' ps_def by auto
    show "q' \<in> prefix_ids db'"
    proof (cases "p_id r' = n")
      case True
      from r' have "r' \<in> set ps" unfolding db' by simp
      with chk True q' have "q' \<in> p_id ` set ps" by force
      then show ?thesis unfolding db' prefix_ids_def by simp
    next
      case False
      with rg have ri: "p_id r \<noteq> i" by (auto simp: pg f_def)
      then have rc: "r' = cascade r" unfolding rg g_def by simp
      show ?thesis
      proof (cases "parent_prefix_id r = Some i")
        case True
        with rc q' have "q' = n" unfolding cascade_def by simp
        moreover have "n \<in> f ` prefix_ids db"
          using \<open>i \<in> prefix_ids db\<close> unfolding f_def by force
        ultimately show ?thesis unfolding ids' by simp
      next
        case False
        with rc q' have q: "parent_prefix_id r = Some q'" unfolding cascade_def by simp
        with False have "q' \<noteq> i" by auto
        moreover from k(2) r q have "q' \<in> prefix_ids db" unfolding parents_exist_def by blast
        ultimately show ?thesis unfolding ids' f_def by force
      qed
    qed
  qed
  have 3: "no_orphans db'"
    unfolding no_orphans_def ids'
  proof
    fix e'
    assume "e' \<in> set (event_codes_table db')"
    then obtain e where e: "e \<in> set (event_codes_table db)"
      and e': "e' = (if prefix_id e = i then e\<lparr>prefix_id := n\<rparr> else e)"
      unfolding db' es_def by auto
    from k(3) e have "prefix_id e \<in> prefix_ids db" unfolding no_orphans_def by blast
    moreover have "prefix_id e' = f (prefix_id e)" unfolding e' f_def by simp
    ultimately show "prefix_id e' \<in> f ` prefix_ids db" by simp
  qed
  from 1 2 3 show ?thesis unfolding keys_hold_def by simp
qed

lemma execute_keys: "keys_hold db \<Longrightarrow> execute db s = Inr db' \<Longrightarrow> keys_hold db'"
  by (cases s)
    (auto intro: insert_prefix_keys update_prefix_keys delete_prefix_keys insert_event_code_keys
      update_event_code_keys delete_event_code_keys)

lemma run_keys: "keys_hold db \<Longrightarrow> keys_hold (run db ss)"
proof (induction ss arbitrary: db)
  case Nil
  then show ?case by simp
next
  case (Cons s ss)
  show ?case
  proof (cases "execute db s")
    case (Inl e)
    with Cons show ?thesis by simp
  next
    case (Inr db')
    with Cons.prems have "keys_hold db'" by (rule_tac execute_keys)
    with Cons.IH Inr show ?thesis by simp
  qed
qed

lemma empty_db_keys: "keys_hold empty_db"
  by (simp add: keys_hold_def empty_db_def primary_key_def parents_exist_def no_orphans_def)

text \<open>
  Claim C8. In every database that a sequence of statements leads to from the empty
  one, no event code is an orphan; and deleting the prefix \<open>i\<close> leaves no prefix whose id
  descends from \<open>i\<close> and no event code owned by such a prefix.
\<close>

theorem cascade_delete_no_orphans:
  "no_orphans (run empty_db ss) \<and>
   (descends (prefixes_table (run empty_db ss)) i j \<longrightarrow>
      j \<notin> prefix_ids (delete_prefix (run empty_db ss) i) \<and>
      (\<forall>e\<in>set (event_codes_table (delete_prefix (run empty_db ss) i)). prefix_id e \<noteq> j))"
proof -
  define db where "db = run empty_db ss"
  have k: "keys_hold db"
    unfolding db_def using empty_db_keys by (rule run_keys)
  then have pk: "primary_key db" and pe: "parents_exist db" and no: "no_orphans db"
    unfolding keys_hold_def by simp_all
  have "j \<notin> prefix_ids (delete_prefix db i) \<and>
      (\<forall>e\<in>set (event_codes_table (delete_prefix db i)). prefix_id e \<noteq> j)"
    if d: "descends (prefixes_table db) i j"
  proof
    show j: "j \<notin> prefix_ids (delete_prefix db i)"
      using pk pe d by (rule delete_prefix_descendants)
    from delete_prefix_keys[OF k, of i] have "no_orphans (delete_prefix db i)"
      unfolding keys_hold_def by simp
    with j show "\<forall>e\<in>set (event_codes_table (delete_prefix db i)). prefix_id e \<noteq> j"
      unfolding no_orphans_def by blast
  qed
  with no show ?thesis unfolding db_def by blast
qed

lemma run_tree_statements: "run empty_db tree_statements = tree_statements_db"
  unfolding tree_statements_def tree_statements_db_def empty_db_def new_event_code_def
  by (simp add: insert_prefix_def insert_event_code_def read_step_def write_step_def
      prefix_ids_def auto_event_code_increment_function_def sql_max_def coalesce_def int4_max_def)

lemma delete_tree_statements:
  "delete_prefix tree_statements_db 1 =
     \<lparr>prefixes_table =
        [\<lparr>p_id = 4, prefix = ''B'', alias_p = ''Billing'', description = None,
          parent_prefix_id = None\<rparr>],
      event_codes_table = [(new_event_code 21 4)\<lparr>increment := 1\<rparr>]\<rparr>"
  unfolding tree_statements_db_def new_event_code_def delete_prefix_def
  by (simp add: prefix_ids_def)


lemma tree_statements_descends: "descends (prefixes_table tree_statements_db) 1 3"
proof -
  let ?t = "prefixes_table tree_statements_db"
  let ?login = "\<lparr>p_id = 2, prefix = ''LOGIN'', alias_p = ''Login'', description = None,
          parent_prefix_id = Some 1\<rparr>"
  let ?oauth = "\<lparr>p_id = 3, prefix = ''OAUTH'', alias_p = ''OAuth'', description = None,
          parent_prefix_id = Some 2\<rparr>"
  have "descends ?t 1 1" by (rule descends.self)
  moreover have "?login \<in> set ?t" by (simp add: tree_statements_db_def)
  moreover have "parent_prefix_id ?login = Some 1" by simp
  ultimately have "descends ?t 1 (p_id ?login)" by (rule descends.step)
  then have "descends ?t 1 2" by simp
  moreover have "?oauth \<in> set ?t" by (simp add: tree_statements_db_def)
  moreover have "parent_prefix_id ?oauth = Some 2" by simp
  ultimately have "descends ?t 1 (p_id ?oauth)" by (rule descends.step)
  then show ?thesis by simp
qed

text \<open>Deleting the root \<open>A\<close> of the example leaves the second root and its event code.\<close>

theorem cascade_delete_no_orphans_witness:
  "descends (prefixes_table (run empty_db tree_statements)) 1 3 \<and>
   3 \<notin> prefix_ids (delete_prefix (run empty_db tree_statements) 1) \<and>
   delete_prefix (run empty_db tree_statements) 1 =
     \<lparr>prefixes_table =
        [\<lparr>p_id = 4, prefix = ''B'', alias_p = ''Billing'', description = None,
          parent_prefix_id = None\<rparr>],
      event_codes_table = [(new_event_code 21 4)\<lparr>increment := 1\<rparr>]\<rparr>"
proof -
  have d: "descends (prefixes_table (run empty_db tree_statements)) 1 3"
    unfolding run_tree_statements by (rule tree_statements_descends)
  from cascade_delete_no_orphans[of tree_statements 1 3] d
  have "3 \<notin> prefix_ids (delete_prefix (run empty_db tree_statements) 1)"
    by blast
  with d delete_tree_statements[folded run_tree_statements] show ?thesis by blast
qed

section \<open>Properties of the path resolver\<close>

lemma anchor_row:
  "a \<in> set (anchor t) \<longleftrightarrow>
   (\<exists>r\<in>set t. parent_prefix_id r = None \<and>
      a = \<lparr>c_id = p_id r, c_prefix = prefix r, composed_prefix = prefix r,
           c_parent_prefix_id = parent_prefix_id r\<rparr>)"
  unfolding anchor_def by auto

lemma recursive_row:
  "a \<in> set (recursive t w) \<longleftrightarrow>
   (\<exists>r\<in>set t. \<exists>b\<in>set w. parent_prefix_id r = Some (c_id b) \<and>
      a = \<lparr>c_id = p_id r, c_prefix = prefix r,
           composed_prefix = composed_prefix b @ ''.'' @ prefix r,
           c_parent_prefix_id = parent_prefix_id r\<rparr>)"
  unfolding recursive_def set_concat set_map set_filter by (rule iffI; fastforce)

lemma recursive_Nil: "recursive t [] = []"
  unfolding recursive_def by (induction t) simp_all

lemma level_row:
  "a \<in> set (level t k) \<Longrightarrow>
   \<exists>r\<in>set t. c_id a = p_id r \<and> composed_path t r (composed_prefix a) \<and>
     (case k of 0 \<Rightarrow> parent_prefix_id r = None
      | Suc k' \<Rightarrow> \<exists>b\<in>set (level t k'). parent_prefix_id r = Some (c_id b))"
proof (induction k arbitrary: a)
  case 0
  then obtain r where r: "r \<in> set t" "parent_prefix_id r = None"
    and a: "a = \<lparr>c_id = p_id r, c_prefix = prefix r, composed_prefix = prefix r,
           c_parent_prefix_id = parent_prefix_id r\<rparr>"
    by (auto simp: anchor_row)
  from r have "composed_path t r (prefix r)" by (rule composed_path.root)
  with r a show ?case by auto
next
  case (Suc k)
  then obtain r b where r: "r \<in> set t" and b: "b \<in> set (level t k)"
    and p: "parent_prefix_id r = Some (c_id b)"
    and a: "a = \<lparr>c_id = p_id r, c_prefix = prefix r,
           composed_prefix = composed_prefix b @ ''.'' @ prefix r,
           c_parent_prefix_id = parent_prefix_id r\<rparr>"
    by (auto simp: recursive_row)
  from Suc.IH[OF b] obtain pr where pr: "pr \<in> set t" "c_id b = p_id pr"
    "composed_path t pr (composed_prefix b)"
    by blast
  from r p pr(1) pr(2)[symmetric] pr(3)
  have "composed_path t r (composed_prefix b @ ''.'' @ prefix r)"
    by (rule composed_path.child)
  with r b p a show ?case by auto
qed

lemma distinct_ids_row:
  "distinct (map p_id t) \<Longrightarrow> r \<in> set t \<Longrightarrow> r' \<in> set t \<Longrightarrow> p_id r = p_id r' \<Longrightarrow> r = r'"
  by (auto simp: distinct_map dest: inj_onD)

lemma level_depth_unique:
  assumes d: "distinct (map p_id t)"
  shows "a \<in> set (level t j) \<Longrightarrow> b \<in> set (level t k) \<Longrightarrow> c_id a = c_id b \<Longrightarrow> j = k"
proof (induction j arbitrary: k a b)
  case 0
  from level_row[OF 0(1)] obtain r where r: "r \<in> set t" "c_id a = p_id r" "parent_prefix_id r = None"
    by auto
  show ?case
  proof (cases k)
    case 0
    then show ?thesis by simp
  next
    case (Suc k')
    from level_row[OF 0(2)] Suc obtain r' where r': "r' \<in> set t" "c_id b = p_id r'"
      "\<exists>b'\<in>set (level t k'). parent_prefix_id r' = Some (c_id b')"
      by auto
    from d r(1) r'(1) r(2) r'(2) 0(3) have "r = r'" by (auto dest: distinct_ids_row)
    with r(3) r'(3) show ?thesis by auto
  qed
next
  case (Suc j)
  from level_row[OF Suc(2)] obtain r a' where r: "r \<in> set t" "c_id a = p_id r"
    and a': "a' \<in> set (level t j)" "parent_prefix_id r = Some (c_id a')"
    by auto
  show ?case
  proof (cases k)
    case 0
    from level_row[OF Suc(3)] 0 obtain r' where r': "r' \<in> set t" "c_id b = p_id r'"
      "parent_prefix_id r' = None"
      by auto
    from d r(1) r'(1) r(2) r'(2) Suc(4) have "r = r'" by (auto dest: distinct_ids_row)
    with a'(2) r'(3) show ?thesis by auto
  next
    case (Suc k')
    from level_row[OF Suc.prems(2)] Suc obtain r' b' where r': "r' \<in> set t" "c_id b = p_id r'"
      and b': "b' \<in> set (level t k')" "parent_prefix_id r' = Some (c_id b')"
      by auto
    from d r(1) r'(1) r(2) r'(2) Suc.prems(3) have "r = r'" by (auto dest: distinct_ids_row)
    with a'(2) b'(2) have "c_id a' = c_id b'" by simp
    from Suc.IH[OF a'(1) b'(1) this] Suc show ?thesis by simp
  qed
qed


lemma level_nonempty_below: "level t k \<noteq> [] \<Longrightarrow> j \<le> k \<Longrightarrow> level t j \<noteq> []"
proof (induction k)
  case 0
  then show ?case by simp
next
  case (Suc k)
  from Suc.prems(1) have "level t k \<noteq> []"
    by (auto simp: recursive_Nil)
  with Suc show ?case by (cases "j = Suc k") auto
qed

lemma level_bound:
  assumes d: "distinct (map p_id t)" and ne: "level t k \<noteq> []"
  shows "k < length t"
proof -
  define f where "f = (\<lambda>j. c_id (hd (level t j)))"
  have mem: "hd (level t j) \<in> set (level t j)" if "j \<le> k" for j
    using level_nonempty_below[OF ne that] by simp
  have inj: "inj_on f {..k}"
  proof (rule inj_onI)
    fix i j
    assume "i \<in> {..k}" "j \<in> {..k}" and eq: "f i = f j"
    then have "hd (level t i) \<in> set (level t i)" "hd (level t j) \<in> set (level t j)"
      by (simp_all add: mem)
    moreover from eq have "c_id (hd (level t i)) = c_id (hd (level t j))" unfolding f_def .
    ultimately show "i = j" by (rule level_depth_unique[OF d])
  qed
  have sub: "f ` {..k} \<subseteq> p_id ` set t"
  proof
    fix x
    assume "x \<in> f ` {..k}"
    then obtain j where j: "j \<le> k" and x: "x = f j" by auto
    from level_row[OF mem[OF j]] obtain r where "r \<in> set t" "c_id (hd (level t j)) = p_id r"
      by blast
    with x show "x \<in> p_id ` set t" unfolding f_def by auto
  qed
  have "card {..k} = card (f ` {..k})"
    using inj by (simp add: card_image)
  also have "\<dots> \<le> card (p_id ` set t)"
    using sub by (intro card_mono) simp_all
  also have "\<dots> \<le> length t"
    using card_image_le[of "set t" p_id] card_length[of t] by simp
  finally show ?thesis by simp
qed

lemma level_length_empty: "distinct (map p_id t) \<Longrightarrow> level t (length t) = []"
  using level_bound[of t "length t"] by auto

lemma union_all_levels:
  assumes e: "level t n = []"
  shows "k \<le> n \<Longrightarrow> union_all t (level t k) = Some (concat (map (level t) [k..<n]))"
proof (induction "n - k" arbitrary: k)
  case 0
  with e show ?case by (subst union_all.simps) simp
next
  case (Suc m)
  then have kn: "k < n" and m: "m = n - Suc k" by simp_all
  from Suc(1)[OF m] kn
  have IH: "union_all t (level t (Suc k)) = Some (concat (map (level t) [Suc k..<n]))"
    by simp
  have up: "[k..<n] = k # [Suc k..<n]"
    using kn by (simp add: upt_conv_Cons)
  show ?case
  proof (cases "level t k = []")
    case True
    have "level t j = []" if "k \<le> j" for j
      using level_nonempty_below[of t j k] True that by blast
    then have "concat (map (level t) [k..<n]) = []" by simp
    with True show ?thesis by (subst union_all.simps) simp
  next
    case False
    have "union_all t (level t k) =
        Option.bind (union_all t (recursive t (level t k))) (\<lambda>rest. Some (level t k @ rest))"
      using False by (subst union_all.simps) simp
    also have "recursive t (level t k) = level t (Suc k)" by simp
    finally show ?thesis unfolding IH up by simp
  qed
qed

lemma query_levels:
  assumes "distinct (map p_id t)"
  shows "get_prefix_ids_by_composed_key_query t prefixes =
     Some (map c_id (filter (\<lambda>a. composed_prefix a = join_dot prefixes)
       (concat (map (level t) [0..<length t]))))"
proof -
  have "union_all t (anchor t) = Some (concat (map (level t) [0..<length t]))"
    using union_all_levels[OF level_length_empty[OF assms], of 0] by simp
  then show ?thesis
    unfolding get_prefix_ids_by_composed_key_query_def by simp
qed

lemma takeWhile_until:
  "\<forall>c\<in>set xs. P c \<Longrightarrow> \<not> P d \<Longrightarrow> takeWhile P (xs @ d # r) = xs"
  by (induction xs) auto

lemma dot_split_unique:
  assumes "a @ CHR ''.'' # x = b @ CHR ''.'' # y"
    and "CHR ''.'' \<notin> set x" and "CHR ''.'' \<notin> set y"
  shows "a = b \<and> x = y"
proof -
  have tw: "takeWhile (\<lambda>c. c \<noteq> CHR ''.'') (rev z @ CHR ''.'' # rev c) = rev z"
    if "CHR ''.'' \<notin> set z" for z c
    using that by (intro takeWhile_until) auto
  from assms(1) have "rev (a @ CHR ''.'' # x) = rev (b @ CHR ''.'' # y)" by simp
  then have "rev x @ CHR ''.'' # rev a = rev y @ CHR ''.'' # rev b" by simp
  then have "takeWhile (\<lambda>c. c \<noteq> CHR ''.'') (rev x @ CHR ''.'' # rev a) =
             takeWhile (\<lambda>c. c \<noteq> CHR ''.'') (rev y @ CHR ''.'' # rev b)"
    by simp
  then have "rev x = rev y"
    unfolding tw[OF assms(2)] tw[OF assms(3)] .
  then have "x = y" by simp
  with assms(1) show ?thesis by simp
qed

lemma composed_path_in_table: "composed_path t r s \<Longrightarrow> r \<in> set t"
  by (induction rule: composed_path.induct) simp_all

lemma composed_path_unique:
  assumes u: "unique_segments t" and nd: "no_dots t"
  shows "composed_path t r1 s \<Longrightarrow> composed_path t r2 s \<Longrightarrow> r1 = r2"
proof (induction arbitrary: r2 rule: composed_path.induct)
  case (root r)
  from nd root(1) have ndr: "CHR ''.'' \<notin> set (prefix r)" unfolding no_dots_def by blast
  from root(3) show ?case
  proof (cases rule: composed_path.cases)
    case root
    with \<open>r \<in> set t\<close> \<open>parent_prefix_id r = None\<close> u show ?thesis
      unfolding unique_segments_def by auto
  next
    case (child q p s')
    then have "CHR ''.'' \<in> set (prefix r)" by simp
    with ndr show ?thesis by contradiction
  qed
next
  case (child r q p s)
  from nd child(1) have ndr: "CHR ''.'' \<notin> set (prefix r)" unfolding no_dots_def by blast
  from child(7) show ?case
  proof (cases rule: composed_path.cases)
    case root
    from nd root(2) have "CHR ''.'' \<notin> set (prefix r2)" unfolding no_dots_def by blast
    moreover have "CHR ''.'' \<in> set (s @ ''.'' @ prefix r)" by simp
    then have "CHR ''.'' \<in> set (prefix r2)" unfolding root(1) .
    ultimately show ?thesis by contradiction
  next
    case (child q' p' s')
    from nd child(2) have ndr2: "CHR ''.'' \<notin> set (prefix r2)" unfolding no_dots_def by blast
    from child(1) have "s @ CHR ''.'' # prefix r = s' @ CHR ''.'' # prefix r2" by simp
    from dot_split_unique[OF this ndr ndr2] have s: "s = s'" and pr: "prefix r = prefix r2"
      by simp_all
    from child(6) s have "composed_path t p' s" by simp
    from \<open>\<And>r2. composed_path t r2 s \<Longrightarrow> p = r2\<close>[OF this] have "p = p'" .
    with \<open>p_id p = q\<close> child(5) have "q = q'" by simp
    with \<open>parent_prefix_id r = Some q\<close> child(3) have "parent_prefix_id r = parent_prefix_id r2"
      by simp
    with u \<open>r \<in> set t\<close> child(2) pr show ?thesis
      unfolding unique_segments_def by blast
  qed
qed

lemma composed_path_level:
  "composed_path t r s \<Longrightarrow> \<exists>k. \<exists>a\<in>set (level t k). c_id a = p_id r \<and> composed_prefix a = s"
proof (induction rule: composed_path.induct)
  case (root r)
  let ?a = "\<lparr>c_id = p_id r, c_prefix = prefix r, composed_prefix = prefix r,
           c_parent_prefix_id = parent_prefix_id r\<rparr>"
  from root have "?a \<in> set (level t 0)" by (auto simp: anchor_row)
  then show ?case by (intro exI[of _ 0] bexI[of _ ?a]) simp_all
next
  case (child r q p s)
  then obtain k b where b: "b \<in> set (level t k)" "c_id b = p_id p" "composed_prefix b = s"
    by blast
  let ?a = "\<lparr>c_id = p_id r, c_prefix = prefix r,
           composed_prefix = composed_prefix b @ ''.'' @ prefix r,
           c_parent_prefix_id = parent_prefix_id r\<rparr>"
  from child(2,4) b(2) have "parent_prefix_id r = Some (c_id b)" by simp
  with child(1) b(1) have "?a \<in> set (level t (Suc k))"
    unfolding level.simps recursive_row by (intro bexI[of _ r] bexI[of _ b]) simp_all
  with b(3) show ?case by (intro exI[of _ "Suc k"] bexI[of _ ?a]) simp_all
qed

lemma filter_key_le_one:
  "distinct (map f w) \<Longrightarrow> length (filter (\<lambda>a. f a = q) w) \<le> Suc 0"
proof (induction w)
  case Nil
  then show ?case by simp
next
  case (Cons x w)
  show ?case
  proof (cases "f x = q")
    case True
    with Cons.prems have "q \<notin> f ` set w" by simp
    then have "\<forall>a\<in>set w. f a \<noteq> q" by blast
    then have "filter (\<lambda>a. f a = q) w = []" by (simp add: filter_empty_conv)
    with True show ?thesis by simp
  next
    case False
    with Cons show ?thesis by simp
  qed
qed

lemma recursive_ids: "set (map c_id (recursive t w)) \<subseteq> p_id ` set t"
  by (auto simp: recursive_row)

lemma recursive_Cons:
  "recursive (r # t) w =
     map (\<lambda>a. \<lparr>c_id = p_id r, c_prefix = prefix r,
                composed_prefix = composed_prefix a @ ''.'' @ prefix r,
                c_parent_prefix_id = parent_prefix_id r\<rparr>)
       (filter (\<lambda>a. parent_prefix_id r = Some (c_id a)) w) @ recursive t w"
  unfolding recursive_def by simp

lemma recursive_distinct:
  assumes w: "distinct (map c_id w)"
  shows "distinct (map p_id t) \<Longrightarrow> distinct (map c_id (recursive t w))"
proof (induction t)
  case Nil
  show ?case by (simp add: recursive_def)
next
  case (Cons r t)
  let ?inner = "filter (\<lambda>a. parent_prefix_id r = Some (c_id a)) w"
  have len: "length ?inner \<le> Suc 0"
  proof (cases "parent_prefix_id r")
    case None
    then show ?thesis by simp
  next
    case (Some q)
    have "?inner = filter (\<lambda>a. c_id a = q) w"
      unfolding Some by (rule filter_cong) auto
    with filter_key_le_one[OF w, of q] show ?thesis by simp
  qed
  have m: "map c_id (recursive (r # t) w) = replicate (length ?inner) (p_id r) @ map c_id (recursive t w)"
    unfolding recursive_Cons by (simp add: map_replicate_const comp_def)
  from Cons.prems have "p_id r \<notin> p_id ` set t" by simp
  with recursive_ids[of t w] have nin: "p_id r \<notin> set (map c_id (recursive t w))" by blast
  from Cons have IH: "distinct (map c_id (recursive t w))" by simp
  from len have "distinct (replicate (length ?inner) (p_id r))"
    by (cases "length ?inner") simp_all
  moreover have "set (replicate (length ?inner) (p_id r)) \<subseteq> {p_id r}"
    by (simp add: set_replicate_conv_if)
  ultimately show ?case unfolding m distinct_append using IH nin by blast
qed

lemma level_distinct: "distinct (map p_id t) \<Longrightarrow> distinct (map c_id (level t k))"
proof (induction k)
  case 0
  have "map c_id (anchor t) = map p_id (filter (\<lambda>r. parent_prefix_id r = None) t)"
    unfolding anchor_def by simp
  with 0 show ?case by (simp add: distinct_map_filter)
next
  case (Suc k)
  then show ?case by (simp add: recursive_distinct)
qed

lemma closure_distinct:
  assumes d: "distinct (map p_id t)"
  shows "distinct (map c_id (concat (map (level t) [0..<n])))"
proof (induction n)
  case 0
  show ?case by simp
next
  case (Suc n)
  have "set (map c_id (concat (map (level t) [0..<n]))) \<inter> set (map c_id (level t n)) = {}"
  proof (rule ccontr)
    assume "\<not> ?thesis"
    then obtain a b j where "j < n" "a \<in> set (level t j)" "b \<in> set (level t n)" "c_id a = c_id b"
      by auto
    with level_depth_unique[OF d, of a j b n] show False by simp
  qed
  with Suc level_distinct[OF d, of n] show ?case by simp
qed

text \<open>
  Claim C1. In a table with distinct ids, unique \<open>(parent_id, segment)\<close> and segments
  without dots, for a node whose composed path is the chain of segments joined by dots,
  the query returns, and it returns exactly the id of this node. The closure is reached
  after at most as many iterations as the table has rows, so cycles among rows that no
  root reaches do not matter.
\<close>

theorem resolve_returns_node:
  assumes d: "distinct (map p_id t)" and u: "unique_segments t" and nd: "no_dots t"
    and r: "composed_path t r (join_dot segments)"
  shows "get_prefix_ids_by_composed_key_query t segments = Some [p_id r]"
proof -
  let ?cl = "concat (map (level t) [0..<length t])"
  let ?xs = "filter (\<lambda>a. composed_prefix a = join_dot segments) ?cl"
  have q: "get_prefix_ids_by_composed_key_query t segments = Some (map c_id ?xs)"
    using d by (rule query_levels)
  have dist: "distinct (map c_id ?xs)"
    using closure_distinct[OF d, of "length t"] by (rule distinct_map_filter)
  have sub: "set (map c_id ?xs) \<subseteq> {p_id r}"
  proof
    fix i
    assume "i \<in> set (map c_id ?xs)"
    then obtain a k where a: "a \<in> set (level t k)" "composed_prefix a = join_dot segments" "i = c_id a"
      by auto
    from level_row[OF a(1)] obtain r' where "c_id a = p_id r'" "composed_path t r' (composed_prefix a)"
      by blast
    with a(2) composed_path_unique[OF u nd r, of r'] have "c_id a = p_id r" by simp
    with a(3) show "i \<in> {p_id r}" by simp
  qed
  have mem: "p_id r \<in> set (map c_id ?xs)"
  proof -
    from composed_path_level[OF r] obtain k a where a: "a \<in> set (level t k)" "c_id a = p_id r"
      "composed_prefix a = join_dot segments"
      by blast
    from a(1) have "level t k \<noteq> []" by auto
    with d have "k < length t" by (rule level_bound)
    with a(1) have "a \<in> set ?cl" by auto
    with a(3) have "a \<in> set ?xs" by simp
    with a(2) show ?thesis by force
  qed
  from dist mem sub have "map c_id ?xs = [p_id r]" by (rule distinct_singleton)
  with q show ?thesis by simp
qed


text \<open>Without a node of that composed path the query returns no row.\<close>

lemma resolve_no_node:
  assumes d: "distinct (map p_id t)" and n: "\<And>r. \<not> composed_path t r (join_dot segments)"
  shows "get_prefix_ids_by_composed_key_query t segments = Some []"
proof -
  have "filter (\<lambda>a. composed_prefix a = join_dot segments) (concat (map (level t) [0..<length t])) = []"
    unfolding filter_empty_conv
  proof (intro ballI notI)
    fix a
    assume "a \<in> set (concat (map (level t) [0..<length t]))"
      and eq: "composed_prefix a = join_dot segments"
    then obtain k where "a \<in> set (level t k)" by auto
    from level_row[OF this] obtain r where "composed_path t r (composed_prefix a)" by blast
    with eq n show False by simp
  qed
  then show ?thesis unfolding query_levels[OF d] by simp
qed

text \<open>The grandchild of the example tree.\<close>

theorem resolve_returns_node_witness:
  "get_prefix_ids_by_composed_key_query (prefixes_table tree_db) [''A'', ''LOGIN'', ''OAUTH''] = Some [3]"
proof -
  let ?t = "prefixes_table tree_db"
  let ?a = "\<lparr>p_id = 1, prefix = ''A'', alias_p = ''Auth'', description = None,
          parent_prefix_id = None\<rparr>"
  let ?login = "\<lparr>p_id = 2, prefix = ''LOGIN'', alias_p = ''Login'', description = None,
          parent_prefix_id = Some 1\<rparr>"
  let ?oauth = "\<lparr>p_id = 3, prefix = ''OAUTH'', alias_p = ''OAuth'', description = None,
          parent_prefix_id = Some 2\<rparr>"
  have mem: "?a \<in> set ?t" "?login \<in> set ?t" "?oauth \<in> set ?t"
    by (simp_all add: tree_db_def)
  have d: "distinct (map p_id ?t)" by (simp add: tree_db_def)
  have u: "unique_segments ?t" by (simp add: unique_segments_def tree_db_def)
  have nd: "no_dots ?t" by (simp add: no_dots_def tree_db_def)
  have "composed_path ?t ?a (prefix ?a)"
    using mem(1) by (rule composed_path.root) simp
  then have "composed_path ?t ?login (prefix ?a @ ''.'' @ prefix ?login)"
    by (intro composed_path.child[OF mem(2) _ mem(1)]) simp_all
  then have "composed_path ?t ?oauth ((prefix ?a @ ''.'' @ prefix ?login) @ ''.'' @ prefix ?oauth)"
    by (intro composed_path.child[OF mem(3) _ mem(2)]) simp_all
  then have "composed_path ?t ?oauth (join_dot [''A'', ''LOGIN'', ''OAUTH''])"
    by simp
  from resolve_returns_node[OF d u nd this] show ?thesis by simp
qed

end
